theory Spec2Isabelle
  imports Main "HOL-Library.Word" "HOL-Library.AList"
begin

unbundle bit_operations_syntax

section \<open>Data model (input/event.go)\<close>

text \<open>
  \<^verbatim>\<open>type Key int\<close> with the constants numbered by \<^verbatim>\<open>iota\<close>, in the order of
  the const block: the arithmetic of \<^verbatim>\<open>runeToKey\<close> relies on that numbering.
\<close>

type_synonym Key = int

definition KeyUnknown :: Key where "KeyUnknown = 0"
definition KeyEscape :: Key where "KeyEscape = 1"
definition KeyEnter :: Key where "KeyEnter = 2"
definition KeyBackspace :: Key where "KeyBackspace = 3"
definition KeyTab :: Key where "KeyTab = 4"
definition KeyDelete :: Key where "KeyDelete = 5"
definition KeyInsert :: Key where "KeyInsert = 6"
definition KeyUp :: Key where "KeyUp = 7"
definition KeyDown :: Key where "KeyDown = 8"
definition KeyLeft :: Key where "KeyLeft = 9"
definition KeyRight :: Key where "KeyRight = 10"
definition KeyHome :: Key where "KeyHome = 11"
definition KeyEnd :: Key where "KeyEnd = 12"
definition KeyPageUp :: Key where "KeyPageUp = 13"
definition KeyPageDown :: Key where "KeyPageDown = 14"
definition KeyF1 :: Key where "KeyF1 = 15"
definition KeyF2 :: Key where "KeyF2 = 16"
definition KeyF3 :: Key where "KeyF3 = 17"
definition KeyF4 :: Key where "KeyF4 = 18"
definition KeyF5 :: Key where "KeyF5 = 19"
definition KeyF6 :: Key where "KeyF6 = 20"
definition KeyF7 :: Key where "KeyF7 = 21"
definition KeyF8 :: Key where "KeyF8 = 22"
definition KeyF9 :: Key where "KeyF9 = 23"
definition KeyF10 :: Key where "KeyF10 = 24"
definition KeyF11 :: Key where "KeyF11 = 25"
definition KeyF12 :: Key where "KeyF12 = 26"
definition KeyA :: Key where "KeyA = 27"
definition KeyB :: Key where "KeyB = 28"
definition KeyC :: Key where "KeyC = 29"
definition KeyD :: Key where "KeyD = 30"
definition KeyE :: Key where "KeyE = 31"
definition KeyF :: Key where "KeyF = 32"
definition KeyG :: Key where "KeyG = 33"
definition KeyH :: Key where "KeyH = 34"
definition KeyI :: Key where "KeyI = 35"
definition KeyJ :: Key where "KeyJ = 36"
definition KeyK :: Key where "KeyK = 37"
definition KeyL :: Key where "KeyL = 38"
definition KeyM :: Key where "KeyM = 39"
definition KeyN :: Key where "KeyN = 40"
definition KeyO :: Key where "KeyO = 41"
definition KeyP :: Key where "KeyP = 42"
definition KeyQ :: Key where "KeyQ = 43"
definition KeyR :: Key where "KeyR = 44"
definition KeyS :: Key where "KeyS = 45"
definition KeyT :: Key where "KeyT = 46"
definition KeyU :: Key where "KeyU = 47"
definition KeyV :: Key where "KeyV = 48"
definition KeyW :: Key where "KeyW = 49"
definition KeyX :: Key where "KeyX = 50"
definition KeyY :: Key where "KeyY = 51"
definition KeyZ :: Key where "KeyZ = 52"
definition Key0 :: Key where "Key0 = 53"
definition Key1 :: Key where "Key1 = 54"
definition Key2 :: Key where "Key2 = 55"
definition Key3 :: Key where "Key3 = 56"
definition Key4 :: Key where "Key4 = 57"
definition Key5 :: Key where "Key5 = 58"
definition Key6 :: Key where "Key6 = 59"
definition Key7 :: Key where "Key7 = 60"
definition Key8 :: Key where "Key8 = 61"
definition Key9 :: Key where "Key9 = 62"
definition KeyCtrlA :: Key where "KeyCtrlA = 63"
definition KeyCtrlB :: Key where "KeyCtrlB = 64"
definition KeyCtrlC :: Key where "KeyCtrlC = 65"
definition KeyCtrlD :: Key where "KeyCtrlD = 66"
definition KeyCtrlE :: Key where "KeyCtrlE = 67"
definition KeyCtrlF :: Key where "KeyCtrlF = 68"
definition KeyCtrlG :: Key where "KeyCtrlG = 69"
definition KeyCtrlH :: Key where "KeyCtrlH = 70"
definition KeyCtrlI :: Key where "KeyCtrlI = 71"
definition KeyCtrlJ :: Key where "KeyCtrlJ = 72"
definition KeyCtrlK :: Key where "KeyCtrlK = 73"
definition KeyCtrlL :: Key where "KeyCtrlL = 74"
definition KeyCtrlM :: Key where "KeyCtrlM = 75"
definition KeyCtrlN :: Key where "KeyCtrlN = 76"
definition KeyCtrlO :: Key where "KeyCtrlO = 77"
definition KeyCtrlP :: Key where "KeyCtrlP = 78"
definition KeyCtrlQ :: Key where "KeyCtrlQ = 79"
definition KeyCtrlR :: Key where "KeyCtrlR = 80"
definition KeyCtrlS :: Key where "KeyCtrlS = 81"
definition KeyCtrlT :: Key where "KeyCtrlT = 82"
definition KeyCtrlU :: Key where "KeyCtrlU = 83"
definition KeyCtrlV :: Key where "KeyCtrlV = 84"
definition KeyCtrlW :: Key where "KeyCtrlW = 85"
definition KeyCtrlX :: Key where "KeyCtrlX = 86"
definition KeyCtrlY :: Key where "KeyCtrlY = 87"
definition KeyCtrlZ :: Key where "KeyCtrlZ = 88"
definition KeySpace :: Key where "KeySpace = 89"

text \<open>
  \<^verbatim>\<open>type Modifier int\<close>: \<^verbatim>\<open>ModNone = 0\<close> sits at iota 0, so
  \<^verbatim>\<open>ModShift = 1 << iota\<close> is \<^verbatim>\<open>1 << 1\<close>.
\<close>

type_synonym Modifier = int

definition ModNone :: Modifier where "ModNone = 0"
definition ModShift :: Modifier where "ModShift = 2"
definition ModAlt :: Modifier where "ModAlt = 4"
definition ModCtrl :: Modifier where "ModCtrl = 8"

type_synonym byte = "8 word"
type_synonym rune = "32 word"

text \<open>
  The Event struct. \<^verbatim>\<open>Timestamp\<close> is a reading of the clock; the zero
  \<^verbatim>\<open>time.Time\<close> is modelled as 0.
\<close>

record Event =
  Key :: Key
  Rune :: rune
  Modifiers :: Modifier
  Timestamp :: nat
  Pressed :: bool
  Repeat :: bool

definition zeroEvent :: Event where
  "zeroEvent = \<lparr>Key = 0, Rune = 0, Modifiers = 0, Timestamp = 0, Pressed = False, Repeat = False\<rparr>"

text \<open>
  The errors of the code: the two \<^verbatim>\<open>Parse\<close> makes (\<^verbatim>\<open>empty sequence\<close> and
  \<^verbatim>\<open>incomplete UTF-8 sequence\<close>), what \<^verbatim>\<open>file.Read\<close> and the ioctls return
  (\<^verbatim>\<open>io.EOF\<close>, the deadline error, any other by a number), and the two of
  \<^verbatim>\<open>Start\<close>.
\<close>

datatype error =
    ErrEmptySequence
  | ErrIncompleteUTF8
  | ErrEOF
  | ErrDeadlineExceeded
  | ErrIO nat
  | ErrAlreadyStarted
  | ErrInitFailed

section \<open>UTF-8 decoding (Go standard library, unicode/utf8)\<close>

text \<open>
  \<^verbatim>\<open>Parse\<close> and \<^verbatim>\<open>ReadEvent\<close> call \<^verbatim>\<open>utf8.FullRune\<close> and
  \<^verbatim>\<open>utf8.DecodeRune\<close>. They are embedded here as the standard library writes
  them: the table \<^verbatim>\<open>first\<close> (given by its ranges), \<^verbatim>\<open>acceptRanges\<close>, and the
  two functions with their early returns in the library's order. In the branch
  \<^verbatim>\<open>x >= as\<close> of \<^verbatim>\<open>DecodeRune\<close> the library builds a mask from the low bit of
  \<^verbatim>\<open>x\<close> to avoid a branch; the model writes the test \<^verbatim>\<open>x == xx\<close> that, by the
  library's comment, the mask simulates.
\<close>

definition RuneError :: rune where "RuneError = 0xFFFD"
definition UTFMax :: nat where "UTFMax = 4"

definition maskx :: byte where "maskx = 0x3F"
definition mask2 :: byte where "mask2 = 0x1F"
definition mask3 :: byte where "mask3 = 0x0F"
definition mask4 :: byte where "mask4 = 0x07"
definition locb :: byte where "locb = 0x80"
definition hicb :: byte where "hicb = 0xBF"

definition t2 :: byte where "t2 = 0xC0"
definition t3 :: byte where "t3 = 0xE0"
definition t4 :: byte where "t4 = 0xF0"
definition tx :: byte where "tx = 0x80"

text \<open>
  \<^verbatim>\<open>first[b]\<close>: the low three bits hold the size of the encoding that starts with
  \<^verbatim>\<open>b\<close>, the high four bits the index into \<^verbatim>\<open>acceptRanges\<close>; \<^verbatim>\<open>as = 0xF0\<close>
  marks ASCII and \<^verbatim>\<open>xx = 0xF1\<close> an invalid first byte.
\<close>

definition first :: "byte \<Rightarrow> byte" where
  "first b =
     (if b < 0x80 then 0xF0
      else if b < 0xC2 then 0xF1
      else if b < 0xE0 then 0x02
      else if b = 0xE0 then 0x13
      else if b < 0xED then 0x03
      else if b = 0xED then 0x23
      else if b < 0xF0 then 0x03
      else if b = 0xF0 then 0x34
      else if b < 0xF4 then 0x04
      else if b = 0xF4 then 0x44
      else 0xF1)"

definition acceptRanges :: "byte \<Rightarrow> byte \<times> byte" where
  "acceptRanges i =
     (if i = 0 then (locb, hicb)
      else if i = 1 then (0xA0, hicb)
      else if i = 2 then (locb, 0x9F)
      else if i = 3 then (0x90, hicb)
      else if i = 4 then (locb, 0x8F)
      else (0, 0))"

definition FullRune :: "byte list \<Rightarrow> bool" where
  "FullRune p =
     (let n = length p in
      if n = 0 then False
      else
        let x = first (p ! 0) in
        if n \<ge> unat (x AND 7) then True
        else
          let (lo, hi) = acceptRanges (drop_bit 4 x) in
          if n > 1 \<and> (p ! 1 < lo \<or> hi < p ! 1) then True
          else if n > 2 \<and> (p ! 2 < locb \<or> hicb < p ! 2) then True
          else False)"

definition DecodeRune :: "byte list \<Rightarrow> rune \<times> nat" where
  "DecodeRune p =
     (let n = length p in
      if n < 1 then (RuneError, 0)
      else
        let p0 = p ! 0; x = first p0 in
        if x \<ge> 0xF0 then (if x = 0xF1 then RuneError else ucast p0, 1)
        else
          let sz = unat (x AND 7); (lo, hi) = acceptRanges (drop_bit 4 x) in
          if n < sz then (RuneError, 1)
          else
            let b1 = p ! 1 in
            if b1 < lo \<or> hi < b1 then (RuneError, 1)
            else if sz \<le> 2 then
              (push_bit 6 (ucast (p0 AND mask2)) OR ucast (b1 AND maskx), 2)
            else
              let b2 = p ! 2 in
              if b2 < locb \<or> hicb < b2 then (RuneError, 1)
              else if sz \<le> 3 then
                (push_bit 12 (ucast (p0 AND mask3)) OR push_bit 6 (ucast (b1 AND maskx))
                   OR ucast (b2 AND maskx), 3)
              else
                let b3 = p ! 3 in
                if b3 < locb \<or> hicb < b3 then (RuneError, 1)
                else
                  (push_bit 18 (ucast (p0 AND mask4)) OR push_bit 12 (ucast (b1 AND maskx))
                     OR push_bit 6 (ucast (b2 AND maskx)) OR ucast (b3 AND maskx), 4))"

text \<open>
  The encoder, for the statements about valid encodings: \<^verbatim>\<open>utf8.EncodeRune\<close> of the
  same library, whose \<^verbatim>\<open>switch\<close> compares \<^verbatim>\<open>uint32(r)\<close>. A rune out of range or a
  surrogate is encoded as \<^verbatim>\<open>RuneError\<close>.
\<close>

definition rune1Max :: rune where "rune1Max = 0x7F"
definition rune2Max :: rune where "rune2Max = 0x7FF"
definition rune3Max :: rune where "rune3Max = 0xFFFF"
definition MaxRune :: rune where "MaxRune = 0x10FFFF"
definition surrogateMin :: rune where "surrogateMin = 0xD800"
definition surrogateMax :: rune where "surrogateMax = 0xDFFF"

definition encode3 :: "rune \<Rightarrow> byte list" where
  "encode3 r =
     [t3 OR ucast (drop_bit 12 r),
      tx OR (ucast (drop_bit 6 r) AND maskx),
      tx OR (ucast r AND maskx)]"

definition EncodeRune :: "rune \<Rightarrow> byte list" where
  "EncodeRune r =
     (if r \<le> rune1Max then [ucast r]
      else if r \<le> rune2Max then
        [t2 OR ucast (drop_bit 6 r), tx OR (ucast r AND maskx)]
      else if r > MaxRune \<or> (surrogateMin \<le> r \<and> r \<le> surrogateMax) then encode3 RuneError
      else if r \<le> rune3Max then encode3 r
      else
        [t4 OR ucast (drop_bit 18 r),
         tx OR (ucast (drop_bit 12 r) AND maskx),
         tx OR (ucast (drop_bit 6 r) AND maskx),
         tx OR (ucast r AND maskx)])"

text \<open>A Unicode scalar value: at most \<^verbatim>\<open>MaxRune\<close> and no surrogate.\<close>

definition scalarValue :: "rune \<Rightarrow> bool" where
  "scalarValue r = (r \<le> MaxRune \<and> \<not> (surrogateMin \<le> r \<and> r \<le> surrogateMax))"

text \<open>
  A byte sequence is one multi-byte character when \<^verbatim>\<open>DecodeRune\<close> consumes all of it
  and it has at least two bytes (a width of 1 is ASCII or the decoder's error case).
\<close>

definition validMultiByte :: "byte list \<Rightarrow> bool" where
  "validMultiByte bs = (2 \<le> length bs \<and> snd (DecodeRune bs) = length bs)"

section \<open>The sequence parser (input/parser.go)\<close>

text \<open>
  A trie node: key, modifier and the children map. The Go map is an association list
  here; \<^verbatim>\<open>None\<close> is the nil map.
\<close>

datatype SequenceNode =
  SequenceNode (key: Key) (modifier: Modifier) (children: "(byte \<times> SequenceNode) list option")

record SequenceParser =
  root :: SequenceNode

text \<open>
  \<^verbatim>\<open>addSequence\<close> walks from the node, creating missing children, and sets key and
  modifier at the node it ends on. The Go code mutates the nodes through pointers; the
  trie is a tree (no node is shared), so the model rebuilds the path it walked.
\<close>

fun addSequence :: "SequenceNode \<Rightarrow> byte list \<Rightarrow> Key \<Rightarrow> Modifier \<Rightarrow> SequenceNode" where
  "addSequence (SequenceNode k0 m0 ch) [] k m = SequenceNode k m ch"
| "addSequence (SequenceNode k0 m0 ch) (b # bs) k m =
     (let ch1 = (case ch of None \<Rightarrow> [] | Some c \<Rightarrow> c);
          child = (case map_of ch1 b of
                     None \<Rightarrow> SequenceNode KeyUnknown 0 (Some [])
                   | Some c \<Rightarrow> c)
      in SequenceNode k0 m0 (Some (AList.update b (addSequence child bs k m) ch1)))"

definition trieSequences :: "(byte list \<times> Key \<times> Modifier) list" where
  "trieSequences =
     [([0x1b, 0x5B, 0x41], KeyUp, ModNone),
      ([0x1b, 0x5B, 0x42], KeyDown, ModNone),
      ([0x1b, 0x5B, 0x43], KeyRight, ModNone),
      ([0x1b, 0x5B, 0x44], KeyLeft, ModNone),
      ([0x1b, 0x5B, 0x48], KeyHome, ModNone),
      ([0x1b, 0x5B, 0x46], KeyEnd, ModNone),
      ([0x1b, 0x5B, 0x32, 0x7E], KeyInsert, ModNone),
      ([0x1b, 0x5B, 0x33, 0x7E], KeyDelete, ModNone),
      ([0x1b, 0x5B, 0x35, 0x7E], KeyPageUp, ModNone),
      ([0x1b, 0x5B, 0x36, 0x7E], KeyPageDown, ModNone),
      ([0x1b, 0x4F, 0x50], KeyF1, ModNone),
      ([0x1b, 0x4F, 0x51], KeyF2, ModNone),
      ([0x1b, 0x4F, 0x52], KeyF3, ModNone),
      ([0x1b, 0x4F, 0x53], KeyF4, ModNone),
      ([0x1b, 0x5B, 0x31, 0x35, 0x7E], KeyF5, ModNone),
      ([0x1b, 0x5B, 0x31, 0x37, 0x7E], KeyF6, ModNone),
      ([0x1b, 0x5B, 0x31, 0x38, 0x7E], KeyF7, ModNone),
      ([0x1b, 0x5B, 0x31, 0x39, 0x7E], KeyF8, ModNone),
      ([0x1b, 0x5B, 0x32, 0x30, 0x7E], KeyF9, ModNone),
      ([0x1b, 0x5B, 0x32, 0x31, 0x7E], KeyF10, ModNone),
      ([0x1b, 0x5B, 0x32, 0x33, 0x7E], KeyF11, ModNone),
      ([0x1b, 0x5B, 0x32, 0x34, 0x7E], KeyF12, ModNone)]"

text \<open>\<^verbatim>\<open>buildTrie\<close>: the calls of \<^verbatim>\<open>addSequence\<close> in the order of the source.\<close>

definition buildTrie :: "SequenceParser \<Rightarrow> SequenceParser" where
  "buildTrie p =
     \<lparr>root = foldl (\<lambda>n (s, k, m). addSequence n s k m) (root p) trieSequences\<rparr>"

definition NewSequenceParser :: SequenceParser where
  "NewSequenceParser = buildTrie \<lparr>root = SequenceNode 0 0 (Some [])\<rparr>"

definition ctrlCharToKey :: "byte \<Rightarrow> Key" where
  "ctrlCharToKey b =
     (if b = 0x01 then KeyCtrlA
      else if b = 0x02 then KeyCtrlB
      else if b = 0x03 then KeyCtrlC
      else if b = 0x04 then KeyCtrlD
      else if b = 0x05 then KeyCtrlE
      else if b = 0x06 then KeyCtrlF
      else if b = 0x07 then KeyCtrlG
      else if b = 0x08 then KeyCtrlH
      else if b = 0x0a then KeyCtrlJ
      else if b = 0x0b then KeyCtrlK
      else if b = 0x0c then KeyCtrlL
      else if b = 0x0e then KeyCtrlN
      else if b = 0x0f then KeyCtrlO
      else if b = 0x10 then KeyCtrlP
      else if b = 0x11 then KeyCtrlQ
      else if b = 0x12 then KeyCtrlR
      else if b = 0x13 then KeyCtrlS
      else if b = 0x14 then KeyCtrlT
      else if b = 0x15 then KeyCtrlU
      else if b = 0x16 then KeyCtrlV
      else if b = 0x17 then KeyCtrlW
      else if b = 0x18 then KeyCtrlX
      else if b = 0x19 then KeyCtrlY
      else if b = 0x1a then KeyCtrlZ
      else KeyUnknown)"

text \<open>\<^verbatim>\<open>runeToKey\<close>; a rune is an int32, compared as a signed value.\<close>

definition runeToKey :: "rune \<Rightarrow> Key" where
  "runeToKey r =
     (if 0x61 \<le>s r \<and> r \<le>s 0x7A then KeyA + sint (r - 0x61)
      else if 0x41 \<le>s r \<and> r \<le>s 0x5A then KeyA + sint (r - 0x41)
      else if 0x30 \<le>s r \<and> r \<le>s 0x39 then Key0 + sint (r - 0x30)
      else if r = 0x20 then KeySpace
      else if r = 0x09 then KeyTab
      else if r = 0x0D \<or> r = 0x0A then KeyEnter
      else KeyUnknown)"

text \<open>The walk of the trie, one byte at a time; \<open>None\<close> when a child is missing.\<close>

fun walkTrie :: "SequenceNode \<Rightarrow> byte list \<Rightarrow> SequenceNode option" where
  "walkTrie node [] = Some node"
| "walkTrie node (b # bs) =
     (case children node of
        None \<Rightarrow> None
      | Some ch \<Rightarrow>
          (case map_of ch b of
             None \<Rightarrow> None
           | Some next \<Rightarrow> walkTrie next bs))"

text \<open>
  The single-byte block of \<^verbatim>\<open>Parse\<close>, in the order of the source; \<open>None\<close> is the
  fall-through of a byte \<open>\<ge> 0x80\<close> to the UTF-8 block.
\<close>

definition parseSingle :: "Event \<Rightarrow> byte \<Rightarrow> (error + Event) option" where
  "parseSingle event b =
     (if b = 0x1b then Some (Inr (event\<lparr>Key := KeyEscape\<rparr>))
      else if b \<ge> 0x01 \<and> b \<le> 0x1a then
        Some (Inr (event\<lparr>Key := ctrlCharToKey b, Modifiers := ModCtrl\<rparr>))
      else if b = 0x09 then Some (Inr (event\<lparr>Key := KeyTab, Rune := 0x09\<rparr>))
      else if b = 0x0d then Some (Inr (event\<lparr>Key := KeyEnter, Rune := 0x0D\<rparr>))
      else if b = 0x7f \<or> b = 0x08 then Some (Inr (event\<lparr>Key := KeyBackspace\<rparr>))
      else if b = 0x20 then Some (Inr (event\<lparr>Key := KeySpace, Rune := 0x20\<rparr>))
      else if b \<ge> 0x20 \<and> b \<le> 0x7e then
        Some (Inr (event\<lparr>Rune := ucast b, Key := runeToKey (ucast b)\<rparr>))
      else if b \<ge> 0x80 then None
      else Some (Inr (event\<lparr>Key := KeyUnknown\<rparr>)))"

text \<open>\<^verbatim>\<open>Parse\<close>; \<open>now\<close> is the value of \<^verbatim>\<open>time.Now()\<close>.\<close>

definition parseMulti :: "SequenceParser \<Rightarrow> Event \<Rightarrow> byte list \<Rightarrow> error + Event" where
  "parseMulti p event seq =
     (if length seq > 0 \<and> seq ! 0 \<ge> 0x80 \<and> seq ! 0 \<noteq> 0x1b then
        (if \<not> FullRune seq then Inl ErrIncompleteUTF8
         else
           let (r, size) = DecodeRune seq in
           if r = RuneError \<and> size = 1 then Inr (event\<lparr>Key := KeyUnknown, Rune := RuneError\<rparr>)
           else Inr (event\<lparr>Rune := r, Key := KeyUnknown\<rparr>))
      else
        (case walkTrie (root p) seq of
           None \<Rightarrow> Inr (event\<lparr>Key := KeyUnknown\<rparr>)
         | Some node \<Rightarrow>
             if key node \<noteq> KeyUnknown
             then Inr (event\<lparr>Key := key node, Modifiers := modifier node\<rparr>)
             else Inr (event\<lparr>Key := KeyUnknown\<rparr>)))"

definition Parse :: "SequenceParser \<Rightarrow> nat \<Rightarrow> byte list \<Rightarrow> error + Event" where
  "Parse p now seq =
     (if length seq = 0 then Inl ErrEmptySequence
      else
        let event = \<lparr>Key = 0, Rune = 0, Modifiers = 0, Timestamp = now,
                      Pressed = True, Repeat = False\<rparr>
        in case (if length seq = 1 then parseSingle event (seq ! 0) else None) of
             Some r \<Rightarrow> r
           | None \<Rightarrow> parseMulti p event seq)"

text \<open>
  The sequences a trie recognises: every path from the node to a node whose key is not
  \<^verbatim>\<open>KeyUnknown\<close>, with that node's key and modifier.
\<close>

fun trieEntries :: "SequenceNode \<Rightarrow> (byte list \<times> Key \<times> Modifier) list" where
  "trieEntries (SequenceNode k m ch) =
     (if k \<noteq> KeyUnknown then [([], k, m)] else [])
     @ (case ch of
          None \<Rightarrow> []
        | Some c \<Rightarrow>
            concat (map (\<lambda>bn. map (\<lambda>skm. (fst bn # fst skm, snd skm)) (trieEntries (snd bn))) c))"

section \<open>The Unix backend (input/backend_unix_darwin.go)\<close>

text \<open>
  The terminal behind the file descriptor: its termios flags (the ones \<^verbatim>\<open>Init\<close>
  touches), whether the two ioctls fail, and the outcomes of the successive
  \<^verbatim>\<open>file.Read\<close> calls. A \<^verbatim>\<open>Data bs\<close> outcome is one call that returned
  \<^verbatim>\<open>len(bs)\<close> bytes and a nil error; the others return no byte and an error.
  When the list is used up the device is at end of file.
\<close>

record termios =
  icanon :: bool
  echo :: bool
  isig :: bool
  iexten :: bool
  inpck :: bool
  istrip :: bool
  icrnl :: bool
  opost :: bool
  csize :: nat
  vmin :: nat
  vtime :: nat

datatype read_result = Data "byte list" | ReadTimeout | ReadEOF | ReadFail nat

record terminal =
  termState :: termios
  getFails :: bool
  setFails :: bool
  reads :: "read_result list"

record unixBackend =
  originalState :: "termios option"
  parser :: SequenceParser
  initialized :: bool
  pendingBuf :: "byte list"
  tty :: terminal

definition newBackend :: "terminal \<Rightarrow> unixBackend" where
  "newBackend t =
     \<lparr>originalState = None, parser = NewSequenceParser, initialized = False,
      pendingBuf = [], tty = t\<rparr>"

definition Init :: "unixBackend \<Rightarrow> error option \<times> unixBackend" where
  "Init b =
     (if initialized b then (None, b)
      else if getFails (tty b) then (Some (ErrIO 0), b)
      else
        let state = termState (tty b);
            b1 = b\<lparr>originalState := Some state\<rparr>;
            rawState = state\<lparr>icanon := False, echo := False, isig := False, iexten := False,
                             inpck := False, istrip := False, icrnl := False, opost := False,
                             csize := 8, vmin := 1, vtime := 0\<rparr>
        in if setFails (tty b1) then (Some (ErrIO 1), b1)
           else (None, b1\<lparr>tty := (tty b1)\<lparr>termState := rawState\<rparr>, initialized := True\<rparr>))"

definition Restore :: "unixBackend \<Rightarrow> error option \<times> unixBackend" where
  "Restore b =
     (case originalState b of
        None \<Rightarrow> (None, b)
      | Some st \<Rightarrow>
          if setFails (tty b) then (Some (ErrIO 1), b)
          else (None, b\<lparr>tty := (tty b)\<lparr>termState := st\<rparr>\<rparr>))"

text \<open>
  One \<^verbatim>\<open>b.file.Read(buf)\<close>: the bytes read (those of \<^verbatim>\<open>buf[:n]\<close>), the error, and
  the backend with the outcome consumed.
\<close>

definition fileRead :: "unixBackend \<Rightarrow> (byte list \<times> error option) \<times> unixBackend" where
  "fileRead b =
     (case reads (tty b) of
        [] \<Rightarrow> (([], Some ErrEOF), b)
      | r # rest \<Rightarrow>
          let b' = b\<lparr>tty := (tty b)\<lparr>reads := rest\<rparr>\<rparr> in
          (case r of
             Data bs \<Rightarrow> ((bs, None), b')
           | ReadTimeout \<Rightarrow> (([], Some ErrDeadlineExceeded), b')
           | ReadEOF \<Rightarrow> (([], Some ErrEOF), b')
           | ReadFail k \<Rightarrow> (([], Some (ErrIO k)), b')))"

text \<open>
  \<^verbatim>\<open>readWithTimeout\<close> followed by the guarded append
  \<^verbatim>\<open>if err == nil && n > 0 { pendingBuf = append(pendingBuf, buf[:n]...) }\<close>.
\<close>

definition readMore :: "unixBackend \<Rightarrow> unixBackend" where
  "readMore b =
     (case fileRead b of
        ((bs, None), b') \<Rightarrow>
          if length bs > 0 then b'\<lparr>pendingBuf := pendingBuf b' @ bs\<rparr> else b'
      | ((bs, Some e), b') \<Rightarrow> b')"

text \<open>
  The loop \<^verbatim>\<open>for len(b.pendingBuf) < 16\<close> of the escape branch: it stops on an error,
  on a read of no byte, or at 16 bytes.
\<close>

function escLoop :: "unixBackend \<Rightarrow> unixBackend" where
  "escLoop b =
     (if length (pendingBuf b) < 16 then
        (case fileRead b of
           ((bs, None), b') \<Rightarrow>
             if length bs = 0 then b'
             else escLoop (b'\<lparr>pendingBuf := pendingBuf b' @ bs\<rparr>)
         | ((bs, Some e), b') \<Rightarrow> b')
      else b)"
  by pat_completeness auto
termination
  by (relation "measure (\<lambda>b. 16 - length (pendingBuf b))")
     (auto simp add: fileRead_def Let_def neq_Nil_conv split: list.splits read_result.splits)

declare escLoop.simps [simp del]

text \<open>
  The three guarded blocks of \<^verbatim>\<open>ReadEvent\<close>, each under the condition the source
  tests: one more read for an incomplete UTF-8 character, the loop for an escape prefix,
  and after \<^verbatim>\<open>Parse\<close> the one retry on the error \<^verbatim>\<open>incomplete UTF-8 sequence\<close>.
\<close>

definition utf8More :: "unixBackend \<Rightarrow> unixBackend" where
  "utf8More b =
     (if length (pendingBuf b) > 0 \<and> pendingBuf b ! 0 \<ge> 0x80 \<and> pendingBuf b ! 0 \<noteq> 0x1b
      then
        (if \<not> FullRune (pendingBuf b) then
           (if length (pendingBuf b) < UTFMax then readMore b else b)
         else b)
      else b)"

definition escMore :: "unixBackend \<Rightarrow> unixBackend" where
  "escMore b =
     (if length (pendingBuf b) > 0 \<and> pendingBuf b ! 0 = 0x1b then escLoop b else b)"

definition retryIncomplete ::
  "nat \<Rightarrow> error + Event \<Rightarrow> unixBackend \<Rightarrow> (error + Event) \<times> unixBackend" where
  "retryIncomplete now r b =
     (if r = Inl ErrIncompleteUTF8 then
        (if length (pendingBuf b) < UTFMax then
           (case fileRead b of
              ((bs, None), b') \<Rightarrow>
                if length bs > 0 then
                  let b'' = b'\<lparr>pendingBuf := pendingBuf b' @ bs\<rparr>
                  in (Parse (parser b'') now (pendingBuf b''), b'')
                else (r, b')
            | ((bs, Some e), b') \<Rightarrow> (r, b'))
         else (r, b))
      else (r, b))"

text \<open>
  \<^verbatim>\<open>ReadEvent\<close>; \<open>now\<close> is the clock that \<^verbatim>\<open>Parse\<close> reads. The first read
  blocks; its error is returned as it is. The last statement before the return empties
  \<^verbatim>\<open>pendingBuf\<close>.
\<close>

definition ReadEvent :: "nat \<Rightarrow> unixBackend \<Rightarrow> (error + Event) \<times> unixBackend" where
  "ReadEvent now b =
     (case fileRead b of
        ((bs, Some err), b') \<Rightarrow> (Inl err, b')
      | ((bs, None), b') \<Rightarrow>
          let b1 = b'\<lparr>pendingBuf := pendingBuf b' @ bs\<rparr>;
              b2 = utf8More b1;
              b3 = escMore b2;
              r = Parse (parser b3) now (pendingBuf b3);
              (r', b4) = retryIncomplete now r b3
          in (r', b4\<lparr>pendingBuf := []\<rparr>))"

section \<open>The input implementation (input/impl.go)\<close>

text \<open>
  The struct \<^verbatim>\<open>inputImpl\<close>. The buffered channel \<^verbatim>\<open>events\<close> (capacity 100) is the
  list of the events it holds and a flag for \<^verbatim>\<open>close\<close>; the channel \<^verbatim>\<open>done\<close>
  carries no value, so only its flag. \<^verbatim>\<open>wg\<close> is the counter of the WaitGroup,
  \<^verbatim>\<open>stopOnce\<close> whether the \<^verbatim>\<open>sync.Once\<close> has fired.

  Three fields are not fields of the struct: they say where a goroutine stands when it
  is blocked inside a call. \<^verbatim>\<open>sending\<close> is the event the capture goroutine is
  blocked on in its send \<^verbatim>\<open>select\<close> while the channel is full. \<^verbatim>\<open>reading\<close> says
  that the capture goroutine is inside \<^verbatim>\<open>ReadEvent\<close>, in the first
  \<^verbatim>\<open>file.Read\<close>, which has no deadline, waiting for the device; it holds the
  goroutine's \<^verbatim>\<open>consecutiveErrors\<close>. \<^verbatim>\<open>stopWaiting\<close> says that the \<^verbatim>\<open>Stop\<close>
  call that fired the Once is blocked in \<^verbatim>\<open>in.wg.Wait()\<close>.
\<close>

record inputImpl =
  backend :: unixBackend
  events :: "Event list"
  eventsClosed :: bool
  doneClosed :: bool
  wg :: nat
  keyState :: "Key \<rightharpoonup> bool"
  started :: bool
  stopping :: bool
  stopOnce :: bool
  sending :: "Event option"
  reading :: "nat option"
  stopWaiting :: bool

definition eventsCap :: nat where "eventsCap = 100"
definition maxConsecutiveErrors :: nat where "maxConsecutiveErrors = 10"

definition New :: "terminal \<Rightarrow> inputImpl" where
  "New t =
     \<lparr>backend = newBackend t, events = [], eventsClosed = False, doneClosed = False,
      wg = 0, keyState = Map.empty, started = False, stopping = False, stopOnce = False,
      sending = None, reading = None, stopWaiting = False\<rparr>"

text \<open>
  \<^verbatim>\<open>Start\<close>. \<^verbatim>\<open>go in.captureLoop()\<close> creates the goroutine, counted in \<^verbatim>\<open>wg\<close>;
  its body runs when the scheduler picks it (\<open>captureRun\<close> below).
\<close>

definition Start :: "inputImpl \<Rightarrow> error option \<times> inputImpl" where
  "Start s =
     (if started s then (Some ErrAlreadyStarted, s)
      else
        (case Init (backend s) of
           (Some err, b') \<Rightarrow> (Some ErrInitFailed, s\<lparr>backend := b'\<rparr>)
         | (None, b') \<Rightarrow> (None, s\<lparr>backend := b', wg := wg s + 1, started := True\<rparr>)))"

text \<open>
  \<^verbatim>\<open>Stop\<close> may block, so its result says whether the call has returned; in either
  case it carries the state the call has produced so far.
\<close>

datatype stop_result = Returned inputImpl | Waiting inputImpl

fun stopState :: "stop_result \<Rightarrow> inputImpl" where
  "stopState (Returned s) = s"
| "stopState (Waiting s) = s"

text \<open>
  The end of the function passed to \<^verbatim>\<open>stopOnce.Do\<close>, after \<^verbatim>\<open>in.wg.Wait()\<close>:
  \<^verbatim>\<open>Restore\<close> (its error dropped), \<^verbatim>\<open>started = false\<close>, \<^verbatim>\<open>close(in.events)\<close>
  and the loop that drains the channel.
\<close>

definition stopCleanup :: "inputImpl \<Rightarrow> inputImpl" where
  "stopCleanup s =
     (let s4 = s\<lparr>backend := snd (Restore (backend s))\<rparr>;
          s5 = s4\<lparr>started := False\<rparr>
      in s5\<lparr>eventsClosed := True, events := []\<rparr>)"

text \<open>
  \<^verbatim>\<open>in.wg.Wait()\<close> and what follows it. The call goes on only when the counter
  is 0, that is when the capture goroutine has returned; until then it stays blocked.
  Nothing in \<^verbatim>\<open>Stop\<close> makes the goroutine return: closing \<^verbatim>\<open>done\<close> is seen
  at the goroutine's next \<^verbatim>\<open>select\<close>, and a goroutine inside \<^verbatim>\<open>ReadEvent\<close>
  reaches one only after the device has answered its read.
\<close>

definition stopWait :: "inputImpl \<Rightarrow> stop_result" where
  "stopWait s =
     (if wg s = 0 then Returned (stopCleanup (s\<lparr>stopWaiting := False\<rparr>))
      else Waiting (s\<lparr>stopWaiting := True\<rparr>))"

text \<open>
  \<^verbatim>\<open>Stop\<close>: everything happens inside \<^verbatim>\<open>stopOnce.Do\<close>, the test of
  \<^verbatim>\<open>started\<close> included. A call that finds the Once fired returns at once, unless
  the call that fired it is still inside: \<^verbatim>\<open>Do\<close> then blocks until that one is
  through.
\<close>

definition Stop :: "inputImpl \<Rightarrow> stop_result" where
  "Stop s =
     (if stopOnce s then (if stopWaiting s then Waiting s else Returned s)
      else
        let s0 = s\<lparr>stopOnce := True\<rparr> in
        if \<not> started s0 then Returned s0
        else
          let s1 = s0\<lparr>stopping := True\<rparr>;
              s2 = s1\<lparr>doneClosed := True\<rparr>
          in stopWait s2)"

text \<open>
  The \<^verbatim>\<open>Stop\<close> call blocked in \<^verbatim>\<open>in.wg.Wait()\<close> goes on once the counter is 0.
  The empty list: no call is waiting, or the capture goroutine has not returned.
\<close>

definition stopResume :: "inputImpl \<Rightarrow> inputImpl list" where
  "stopResume s =
     (if stopWaiting s \<and> wg s = 0 then [stopCleanup (s\<lparr>stopWaiting := False\<rparr>)] else [])"

definition updateKeyState :: "inputImpl \<Rightarrow> Event \<Rightarrow> inputImpl" where
  "updateKeyState s event =
     (if Pressed event then s\<lparr>keyState := (keyState s)(Key event \<mapsto> True)\<rparr>
      else s\<lparr>keyState := (keyState s)(Key event \<mapsto> False)\<rparr>)"

text \<open>
  \<^verbatim>\<open>Poll\<close> is a \<^verbatim>\<open>select\<close> over a receive from \<^verbatim>\<open>events\<close> and a receive from
  \<^verbatim>\<open>done\<close>; Go picks any case that is ready. The model returns every outcome the
  call can have; the empty list is a call that blocks.
\<close>

definition Poll :: "inputImpl \<Rightarrow> ((Event \<times> bool) \<times> inputImpl) list" where
  "Poll s =
     (if events s \<noteq> [] then
        [((hd (events s), True), updateKeyState (s\<lparr>events := tl (events s)\<rparr>) (hd (events s)))]
      else if eventsClosed s then [((zeroEvent, False), s)]
      else [])
     @ (if doneClosed s then [((zeroEvent, False), s)] else [])"

text \<open>
  \<^verbatim>\<open>Next\<close>: a \<^verbatim>\<open>select\<close> with a \<^verbatim>\<open>default\<close>. The receive has no \<^verbatim>\<open>ok\<close>: on a
  closed, empty channel it yields the zero Event at once.
\<close>

definition Next :: "inputImpl \<Rightarrow> Event option \<times> inputImpl" where
  "Next s =
     (if events s \<noteq> [] then
        (Some (hd (events s)), updateKeyState (s\<lparr>events := tl (events s)\<rparr>) (hd (events s)))
      else if eventsClosed s then (Some zeroEvent, updateKeyState s zeroEvent)
      else (None, s))"

text \<open>\<^verbatim>\<open>in.keyState[k]\<close>: a missing key reads as false.\<close>

definition IsPressed :: "inputImpl \<Rightarrow> Key \<Rightarrow> bool" where
  "IsPressed s k = (case keyState s k of None \<Rightarrow> False | Some v \<Rightarrow> v)"

text \<open>
  \<^verbatim>\<open>captureLoop\<close>, from the head of the loop with \<open>c\<close> consecutive errors so far,
  until the goroutine returns or blocks in its send, on a device that answers every
  read at once. \<open>now\<close> is the clock, one tick later at each iteration. A full channel
  blocks the send: the goroutine stays in the \<^verbatim>\<open>select\<close> with its event
  (\<open>BlockedOnSend\<close>). Within one run nobody else closes \<^verbatim>\<open>done\<close>, so the two inner
  \<^verbatim>\<open>select\<close>s take the timer and the send. \<^verbatim>\<open>defer in.wg.Done()\<close> runs at each
  return.
\<close>

datatype loop_exit = ExitDone | ExitEOF | ExitTooManyErrors | BlockedOnSend

text \<open>
  Every \<^verbatim>\<open>ReadEvent\<close> that does not report the end of the file has consumed at least
  one outcome of the device: the measure of the loop below.
\<close>

lemma fileRead_reads_le:
  "length (reads (tty (snd (fileRead b)))) \<le> length (reads (tty b))"
  by (simp add: fileRead_def Let_def split: list.splits read_result.splits)

lemma fileRead_reads_less:
  "fileRead b = ((bs, e), b') \<Longrightarrow> e \<noteq> Some ErrEOF \<Longrightarrow>
   length (reads (tty b')) < length (reads (tty b))"
  by (auto simp add: fileRead_def Let_def split: list.splits read_result.splits)

lemma readMore_reads_le:
  "length (reads (tty (readMore b))) \<le> length (reads (tty b))"
  using fileRead_reads_le [of b]
  by (auto simp add: readMore_def split: prod.splits option.splits)

lemma escLoop_reads_le:
  "length (reads (tty (escLoop b))) \<le> length (reads (tty b))"
proof (induction b rule: escLoop.induct)
  case (1 b)
  show ?case
  proof (cases "length (pendingBuf b) < 16")
    case False
    then show ?thesis by (simp add: escLoop.simps [of b])
  next
    case True
    obtain bs e b' where fr: "fileRead b = ((bs, e), b')"
      by (metis prod.exhaust)
    have le: "length (reads (tty b')) \<le> length (reads (tty b))"
      using fileRead_reads_le [of b] fr by simp
    show ?thesis
    proof (cases "e = None \<and> length bs \<noteq> 0")
      case False
      then show ?thesis using True fr le
        by (auto simp add: escLoop.simps [of b] split: option.splits)
    next
      case True2: True
      have "length (reads (tty (escLoop (b'\<lparr>pendingBuf := pendingBuf b' @ bs\<rparr>))))
              \<le> length (reads (tty (b'\<lparr>pendingBuf := pendingBuf b' @ bs\<rparr>)))"
        using "1.IH" [OF True fr [symmetric] refl] True2 by simp
      then show ?thesis using True True2 fr le
        by (simp add: escLoop.simps [of b])
    qed
  qed
qed

lemma utf8More_reads_le:
  "length (reads (tty (utf8More b))) \<le> length (reads (tty b))"
  using readMore_reads_le [of b] by (simp add: utf8More_def)

lemma escMore_reads_le:
  "length (reads (tty (escMore b))) \<le> length (reads (tty b))"
  using escLoop_reads_le [of b] by (simp add: escMore_def)

lemma retryIncomplete_reads_le:
  "length (reads (tty (snd (retryIncomplete now r b)))) \<le> length (reads (tty b))"
  using fileRead_reads_le [of b]
  by (auto simp add: retryIncomplete_def Let_def split: prod.splits option.splits)

lemma ReadEvent_reads_less:
  assumes "ReadEvent now b = (r, b')" and "r \<noteq> Inl ErrEOF"
  shows "length (reads (tty b')) < length (reads (tty b))"
proof -
  obtain bs e b0 where fr: "fileRead b = ((bs, e), b0)"
    by (metis prod.exhaust)
  show ?thesis
  proof (cases e)
    case (Some err)
    then show ?thesis using assms fr fileRead_reads_less [OF fr]
      by (auto simp add: ReadEvent_def)
  next
    case None
    have lt0: "length (reads (tty b0)) < length (reads (tty b))"
      using fileRead_reads_less [OF fr] None by simp
    define b1 where "b1 = b0\<lparr>pendingBuf := pendingBuf b0 @ bs\<rparr>"
    define b3 where "b3 = escMore (utf8More b1)"
    define r0 where "r0 = Parse (parser b3) now (pendingBuf b3)"
    have l1: "length (reads (tty b1)) = length (reads (tty b0))"
      by (simp add: b1_def)
    have l3: "length (reads (tty b3)) \<le> length (reads (tty b1))"
      using escMore_reads_le [of "utf8More b1"] utf8More_reads_le [of b1]
      by (simp add: b3_def)
    have "b' = (snd (retryIncomplete now r0 b3))\<lparr>pendingBuf := []\<rparr>"
      using assms(1) fr None
      by (simp add: ReadEvent_def Let_def b1_def b3_def r0_def split: prod.splits)
    then have l4: "length (reads (tty b')) \<le> length (reads (tty b3))"
      using retryIncomplete_reads_le [of now r0 b3] by simp
    show ?thesis using lt0 l1 l3 l4 by linarith
  qed
qed

definition wgDone :: "inputImpl \<Rightarrow> inputImpl" where
  "wgDone s = s\<lparr>wg := wg s - 1\<rparr>"

function captureLoop :: "nat \<Rightarrow> nat \<Rightarrow> inputImpl \<Rightarrow> loop_exit \<times> inputImpl" where
  "captureLoop c now s =
     (if doneClosed s then (ExitDone, wgDone s)
      else
        (case ReadEvent now (backend s) of
           (Inl err, b') \<Rightarrow>
             if err = ErrEOF then (ExitEOF, wgDone (s\<lparr>backend := b'\<rparr>))
             else if c + 1 \<ge> maxConsecutiveErrors
               then (ExitTooManyErrors, wgDone (s\<lparr>backend := b'\<rparr>))
             else captureLoop (c + 1) (Suc now) (s\<lparr>backend := b'\<rparr>)
         | (Inr event, b') \<Rightarrow>
             if length (events s) < eventsCap
               then captureLoop 0 (Suc now) (s\<lparr>backend := b', events := events s @ [event]\<rparr>)
             else (BlockedOnSend, s\<lparr>backend := b', sending := Some event\<rparr>)))"
  by pat_completeness auto
termination
proof (relation "measure (\<lambda>(c, now, s). length (reads (tty (backend s))))")
  show "wf (measure (\<lambda>(c, now, s). length (reads (tty (backend s)))))"
    by simp
next
  fix c now :: nat and s :: inputImpl and x y a
  assume "(x, y) = ReadEvent now (backend s)" and "x = Inl a" and "a \<noteq> ErrEOF"
  then show "((c + 1, Suc now, s\<lparr>backend := y\<rparr>), c, now, s)
          \<in> measure (\<lambda>(c, now, s). length (reads (tty (backend s))))"
    using ReadEvent_reads_less [of now "backend s" x y] by simp
next
  fix c now :: nat and s :: inputImpl and x y b
  assume "(x, y) = ReadEvent now (backend s)" and "x = Inr b"
  then show "((0, Suc now, s\<lparr>backend := y, events := events s @ [b]\<rparr>), c, now, s)
          \<in> measure (\<lambda>(c, now, s). length (reads (tty (backend s))))"
    using ReadEvent_reads_less [of now "backend s" x y] by simp
qed

declare captureLoop.simps [simp del]

text \<open>
  The goroutine at the head of the loop. With \<^verbatim>\<open>done\<close> closed it returns. With
  \<^verbatim>\<open>done\<close> open it calls \<^verbatim>\<open>ReadEvent\<close>: either the device answers this read and
  the later ones at once (\<open>captureLoop\<close>), or it has nothing yet and the goroutine
  waits inside the read.
\<close>

definition loopHead :: "nat \<Rightarrow> nat \<Rightarrow> inputImpl \<Rightarrow> inputImpl list" where
  "loopHead c now s =
     snd (captureLoop c now s) # (if doneClosed s then [] else [s\<lparr>reading := Some c\<rparr>])"

text \<open>
  The device answers the read the goroutine waits in: \<^verbatim>\<open>ReadEvent\<close> goes on to its
  return and the rest of the loop body runs, as in \<open>captureLoop\<close>, except that
  \<^verbatim>\<open>done\<close> may have been closed in the meantime. In the backoff \<^verbatim>\<open>select\<close> a
  closed \<^verbatim>\<open>done\<close> is ready before the timer. In the send \<^verbatim>\<open>select\<close> Go picks
  either case when the channel has room and \<^verbatim>\<open>done\<close> is closed.
\<close>

definition afterRead :: "nat \<Rightarrow> nat \<Rightarrow> inputImpl \<Rightarrow> inputImpl list" where
  "afterRead c now s =
     (case ReadEvent now (backend s) of
        (Inl err, b') \<Rightarrow>
          if err = ErrEOF then [wgDone (s\<lparr>backend := b'\<rparr>)]
          else if c + 1 \<ge> maxConsecutiveErrors then [wgDone (s\<lparr>backend := b'\<rparr>)]
          else if doneClosed s then [wgDone (s\<lparr>backend := b'\<rparr>)]
          else loopHead (c + 1) (Suc now) (s\<lparr>backend := b'\<rparr>)
      | (Inr event, b') \<Rightarrow>
          (if length (events s) < eventsCap
             then loopHead 0 (Suc now) (s\<lparr>backend := b', events := events s @ [event]\<rparr>)
           else if doneClosed s then []
           else [s\<lparr>backend := b', sending := Some event\<rparr>])
          @ (if doneClosed s then [wgDone (s\<lparr>backend := b'\<rparr>)] else []))"

text \<open>
  One scheduling step of the capture goroutine: it runs from where it stands until it
  returns or blocks, with every state it can end in. With no goroutine alive
  (\<^verbatim>\<open>wg\<close> at 0) there is nothing to run. A goroutine inside the read goes on when
  the device answers. A goroutine blocked in the send \<^verbatim>\<open>select\<close> goes on when the
  channel has room (and then loops) or when \<^verbatim>\<open>done\<close> is closed (and then returns).
  A goroutine that \<^verbatim>\<open>Start\<close> has just created is at the head of the loop with no
  error counted. So between two steps the goroutine is gone, just created, in its send
  or in its read; a step is made of whole iterations of the loop.
\<close>

definition captureRun :: "nat \<Rightarrow> inputImpl \<Rightarrow> inputImpl list" where
  "captureRun now s =
     (if wg s = 0 then []
      else
        (case reading s of
           Some c \<Rightarrow> afterRead c now (s\<lparr>reading := None\<rparr>)
         | None \<Rightarrow>
             (case sending s of
                None \<Rightarrow> loopHead 0 now s
              | Some event \<Rightarrow>
                  (if length (events s) < eventsCap
                   then loopHead 0 now (s\<lparr>events := events s @ [event], sending := None\<rparr>)
                   else [])
                  @ (if doneClosed s then [wgDone (s\<lparr>sending := None\<rparr>)] else []))))"

text \<open>
  Call sequences on one instance: the calls of the public interface, the scheduling
  steps of the capture goroutine, and the step in which a \<^verbatim>\<open>Stop\<close> blocked in
  \<^verbatim>\<open>in.wg.Wait()\<close> goes on; with every state a sequence can end in. A \<^verbatim>\<open>Stop\<close>
  that blocks has already changed the state.
\<close>

datatype call =
  CallStart | CallStop | CallPoll | CallNext | CallIsPressed Key | Capture nat | StopGoesOn

fun step :: "call \<Rightarrow> inputImpl \<Rightarrow> inputImpl list" where
  "step CallStart s = [snd (Start s)]"
| "step CallStop s = [stopState (Stop s)]"
| "step CallPoll s = map snd (Poll s)"
| "step CallNext s = [snd (Next s)]"
| "step (CallIsPressed k) s = [s]"
| "step (Capture now) s = captureRun now s"
| "step StopGoesOn s = stopResume s"

fun runs :: "call list \<Rightarrow> inputImpl \<Rightarrow> inputImpl list" where
  "runs [] s = [s]"
| "runs (c # cs) s = concat (map (runs cs) (step c s))"

text \<open>A terminal in cooked mode on which every ioctl succeeds, for the examples.\<close>

definition cooked :: termios where
  "cooked = \<lparr>icanon = True, echo = True, isig = True, iexten = True, inpck = False,
             istrip = False, icrnl = True, opost = True, csize = 8, vmin = 1, vtime = 0\<rparr>"

definition terminalWith :: "read_result list \<Rightarrow> terminal" where
  "terminalWith rs = \<lparr>termState = cooked, getFails = False, setFails = False, reads = rs\<rparr>"

section \<open>An invariant of the call sequences\<close>

text \<open>
  What every state reached from \<^verbatim>\<open>New\<close> satisfies. With no goroutine alive none
  is blocked in a send or a read, and a goroutine is never in both. Once \<^verbatim>\<open>events\<close>
  is closed it is empty, \<^verbatim>\<open>done\<close> is closed too, the Once has fired and no
  \<^verbatim>\<open>Stop\<close> is waiting. A waiting \<^verbatim>\<open>Stop\<close> has fired the Once and closed \<^verbatim>\<open>done\<close>. And
  \<^verbatim>\<open>events\<close> is open only on an instance that is started or whose backend was never
  initialised (\<^verbatim>\<open>Init\<close> sets \<^verbatim>\<open>initialized\<close> at the first \<^verbatim>\<open>Start\<close> that
  succeeds, and nothing resets it).
\<close>

definition consistent :: "inputImpl \<Rightarrow> bool" where
  "consistent s =
     ((wg s = 0 \<longrightarrow> sending s = None \<and> reading s = None)
      \<and> (reading s \<noteq> None \<longrightarrow> sending s = None)
      \<and> (eventsClosed s \<longrightarrow>
            events s = [] \<and> doneClosed s \<and> stopOnce s \<and> \<not> stopWaiting s
            \<and> sending s = None \<and> reading s = None)
      \<and> (stopWaiting s \<longrightarrow> doneClosed s \<and> stopOnce s)
      \<and> (eventsClosed s \<or> started s \<or> \<not> initialized (backend s)))"

section \<open>Consecutive failures and example runs\<close>

text \<open>\<^verbatim>\<open>ReadEvent\<close> fails \<open>n\<close> times in a row, each time with an error other than EOF.\<close>

fun readFails :: "nat \<Rightarrow> nat \<Rightarrow> unixBackend \<Rightarrow> bool" where
  "readFails 0 now b = True"
| "readFails (Suc n) now b =
     (case ReadEvent now b of
        (Inl err, b') \<Rightarrow> err \<noteq> ErrEOF \<and> readFails n (Suc now) b'
      | (Inr event, b') \<Rightarrow> False)"

text \<open>
  A session on a terminal that delivers the byte \<^verbatim>\<open>'a'\<close> and is then at end of
  file: \<^verbatim>\<open>New\<close>, \<^verbatim>\<open>Start\<close>, the capture goroutine runs (and returns on the
  EOF), \<^verbatim>\<open>Poll\<close> takes the event, \<^verbatim>\<open>Stop\<close>.
\<close>

definition sessA0 :: inputImpl where
  "sessA0 = snd (Start (New (terminalWith [Data [0x61]])))"

text \<open>The event \<^verbatim>\<open>Parse\<close> makes of the byte \<^verbatim>\<open>'a'\<close> at time 0.\<close>

definition evA :: Event where
  "evA = \<lparr>Key = KeyA, Rune = 0x61, Modifiers = 0, Timestamp = 0, Pressed = True, Repeat = False\<rparr>"

definition sessA1 :: inputImpl where
  "sessA1 = snd (captureLoop 0 0 sessA0)"

definition sessA2 :: inputImpl where
  "sessA2 = snd (hd (Poll sessA1))"

definition sessA3 :: inputImpl where
  "sessA3 = stopState (Stop sessA2)"

text \<open>The same session goes on with a second \<^verbatim>\<open>Start\<close>.\<close>

definition sessA4 :: inputImpl where
  "sessA4 = snd (Start sessA3)"

text \<open>
  The same terminal, but the byte has not arrived when \<^verbatim>\<open>Stop\<close> is called: the
  capture goroutine waits in its first read, \<^verbatim>\<open>Stop\<close> waits for the goroutine, the
  device answers, the goroutine returns, \<^verbatim>\<open>Stop\<close> goes on.
\<close>

definition sessP0 :: inputImpl where
  "sessP0 = sessA0\<lparr>reading := Some 0\<rparr>"

definition sessP1 :: inputImpl where
  "sessP1 = stopState (Stop sessP0)"

definition sessP2 :: inputImpl where
  "sessP2 = hd (captureRun 1 sessP1)"

definition sessP3 :: inputImpl where
  "sessP3 = hd (stopResume sessP2)"

text \<open>A session whose first call is \<^verbatim>\<open>Stop\<close>: \<^verbatim>\<open>New\<close>, \<^verbatim>\<open>Stop\<close>, \<^verbatim>\<open>Start\<close>, \<^verbatim>\<open>Stop\<close>.\<close>

definition sessB1 :: inputImpl where
  "sessB1 = stopState (Stop (New (terminalWith [])))"

definition sessB2 :: inputImpl where
  "sessB2 = snd (Start sessB1)"

definition sessB3 :: inputImpl where
  "sessB3 = stopState (Stop sessB2)"

text \<open>A started instance on a terminal whose next ten reads fail.\<close>

definition sessE0 :: inputImpl where
  "sessE0 = snd (Start (New (terminalWith (replicate 10 (ReadFail 5)))))"

definition sessE1 :: inputImpl where
  "sessE1 = snd (captureLoop 0 0 sessE0)"

text \<open>
  The Up arrow ESC [ A on two devices: in one piece, and with ESC alone in the first
  read, nothing more within the timeout, and the rest in a later read.
\<close>

definition wholeDev :: unixBackend where
  "wholeDev = newBackend (terminalWith [Data [0x1b, 0x5B, 0x41], ReadTimeout])"

definition splitDev :: unixBackend where
  "splitDev = newBackend (terminalWith [Data [0x1b], ReadTimeout, Data [0x5B, 0x41], ReadTimeout])"

section \<open>What the reads and the capture loop leave unchanged\<close>

lemma fileRead_initialized: "initialized (snd (fileRead b)) = initialized b"
  by (simp add: fileRead_def Let_def split: list.splits read_result.splits)

lemma readMore_initialized: "initialized (readMore b) = initialized b"
  using fileRead_initialized [of b]
  by (auto simp add: readMore_def split: prod.splits option.splits)

lemma escLoop_initialized: "initialized (escLoop b) = initialized b"
proof (induction b rule: escLoop.induct)
  case (1 b)
  show ?case
  proof (cases "length (pendingBuf b) < 16")
    case False
    then show ?thesis by (simp add: escLoop.simps [of b])
  next
    case True
    obtain bs e b' where fr: "fileRead b = ((bs, e), b')"
      by (metis prod.exhaust)
    have eq: "initialized b' = initialized b"
      using fileRead_initialized [of b] fr by simp
    show ?thesis
    proof (cases "e = None \<and> length bs \<noteq> 0")
      case False
      then show ?thesis using True fr eq
        by (auto simp add: escLoop.simps [of b] split: option.splits)
    next
      case True2: True
      have "initialized (escLoop (b'\<lparr>pendingBuf := pendingBuf b' @ bs\<rparr>))
              = initialized (b'\<lparr>pendingBuf := pendingBuf b' @ bs\<rparr>)"
        using "1.IH" [OF True fr [symmetric] refl] True2 by simp
      then show ?thesis using True True2 fr eq
        by (simp add: escLoop.simps [of b])
    qed
  qed
qed

lemma retryIncomplete_initialized:
  "initialized (snd (retryIncomplete now r b)) = initialized b"
  using fileRead_initialized [of b]
  by (auto simp add: retryIncomplete_def Let_def split: prod.splits option.splits)

lemma ReadEvent_initialized: "initialized (snd (ReadEvent now b)) = initialized b"
proof -
  obtain bs e b0 where fr: "fileRead b = ((bs, e), b0)"
    by (metis prod.exhaust)
  have i0: "initialized b0 = initialized b"
    using fileRead_initialized [of b] fr by simp
  show ?thesis
  proof (cases e)
    case (Some err)
    then show ?thesis using fr i0 by (simp add: ReadEvent_def)
  next
    case None
    define b1 where "b1 = b0\<lparr>pendingBuf := pendingBuf b0 @ bs\<rparr>"
    define b3 where "b3 = escMore (utf8More b1)"
    define r0 where "r0 = Parse (parser b3) now (pendingBuf b3)"
    have i3: "initialized b3 = initialized b"
      using i0 escLoop_initialized [of "utf8More b1"] readMore_initialized [of b1]
      by (simp add: b3_def b1_def escMore_def utf8More_def)
    have "snd (ReadEvent now b) = (snd (retryIncomplete now r0 b3))\<lparr>pendingBuf := []\<rparr>"
      using fr None
      by (simp add: ReadEvent_def Let_def b1_def b3_def r0_def split: prod.splits)
    then show ?thesis
      using retryIncomplete_initialized [of now r0 b3] i3 by simp
  qed
qed

lemma captureLoop_frame:
  "started (snd (captureLoop c now s)) = started s
   \<and> eventsClosed (snd (captureLoop c now s)) = eventsClosed s
   \<and> doneClosed (snd (captureLoop c now s)) = doneClosed s
   \<and> stopOnce (snd (captureLoop c now s)) = stopOnce s
   \<and> stopping (snd (captureLoop c now s)) = stopping s
   \<and> keyState (snd (captureLoop c now s)) = keyState s
   \<and> reading (snd (captureLoop c now s)) = reading s
   \<and> stopWaiting (snd (captureLoop c now s)) = stopWaiting s
   \<and> initialized (backend (snd (captureLoop c now s))) = initialized (backend s)"
proof (induction c now s rule: captureLoop.induct)
  case (1 c now s)
  show ?case
  proof (cases "doneClosed s")
    case True
    then show ?thesis by (simp add: captureLoop.simps [of c now s] wgDone_def)
  next
    case False
    obtain r b' where re: "ReadEvent now (backend s) = (r, b')"
      by fastforce
    have ini: "initialized b' = initialized (backend s)"
      using ReadEvent_initialized [of now "backend s"] re by simp
    show ?thesis
    proof (cases r)
      case (Inl err)
      show ?thesis
      proof (cases "err = ErrEOF \<or> maxConsecutiveErrors \<le> c + 1")
        case True
        then show ?thesis using False re Inl ini
          by (auto simp add: captureLoop.simps [of c now s] wgDone_def)
      next
        case F2: False
        then show ?thesis
          using "1.IH"(1) [OF False re [symmetric] Inl] False re Inl ini
          by (simp add: captureLoop.simps [of c now s])
      qed
    next
      case (Inr ev)
      show ?thesis
      proof (cases "length (events s) < eventsCap")
        case True
        then show ?thesis
          using "1.IH"(2) [OF False re [symmetric] Inr True] False re Inr ini
          by (simp add: captureLoop.simps [of c now s])
      next
        case F3: False
        then show ?thesis using False re Inr ini
          by (simp add: captureLoop.simps [of c now s])
      qed
    qed
  qed
qed


text \<open>
  How a run of the loop ends: the goroutine has returned, the counter one lower and no
  send pending that was not pending before, or it is blocked in its send.
\<close>

lemma captureLoop_ends:
  "(wg (snd (captureLoop c now s)) = wg s - 1
      \<and> sending (snd (captureLoop c now s)) = sending s)
   \<or> (wg (snd (captureLoop c now s)) = wg s
      \<and> sending (snd (captureLoop c now s)) \<noteq> None)"
proof (induction c now s rule: captureLoop.induct)
  case (1 c now s)
  show ?case
  proof (cases "doneClosed s")
    case True
    then show ?thesis by (simp add: captureLoop.simps [of c now s] wgDone_def)
  next
    case False
    obtain r b' where re: "ReadEvent now (backend s) = (r, b')"
      by fastforce
    show ?thesis
    proof (cases r)
      case (Inl err)
      show ?thesis
      proof (cases "err = ErrEOF \<or> maxConsecutiveErrors \<le> c + 1")
        case True
        then show ?thesis using False re Inl
          by (auto simp add: captureLoop.simps [of c now s] wgDone_def)
      next
        case F2: False
        then show ?thesis
          using "1.IH"(1) [OF False re [symmetric] Inl] False re Inl
          by (simp add: captureLoop.simps [of c now s])
      qed
    next
      case (Inr ev)
      show ?thesis
      proof (cases "length (events s) < eventsCap")
        case True
        then show ?thesis
          using "1.IH"(2) [OF False re [symmetric] Inr True] False re Inr
          by (simp add: captureLoop.simps [of c now s])
      next
        case F3: False
        then show ?thesis using False re Inr
          by (simp add: captureLoop.simps [of c now s])
      qed
    qed
  qed
qed

lemma captureLoop_done:
  "doneClosed s \<Longrightarrow> captureLoop c now s = (ExitDone, wgDone s)"
  by (simp add: captureLoop.simps [of c now s])
section \<open>UTF-8: bytes as numbers, and the decoder on what the encoder writes\<close>

text \<open>
  The tag and continuation bytes are read as natural numbers: a mask is a remainder, a
  shift a quotient, and an OR of disjoint bit ranges a sum.
\<close>

lemma tag_mod: "a < m \<Longrightarrow> (m * k + a) mod m = (a::nat)"
  by simp

lemma mod32_tag: "a < 32 \<Longrightarrow> (192 + a) mod 32 = (a::nat)"
  using tag_mod [of a 32 6] by simp

lemma mod16_tag: "a < 16 \<Longrightarrow> (224 + a) mod 16 = (a::nat)"
  using tag_mod [of a 16 14] by simp

lemma mod8_tag: "a < 8 \<Longrightarrow> (240 + a) mod 8 = (a::nat)"
  using tag_mod [of a 8 30] by simp

lemma mod64_tag: "(128 + a mod 64) mod 64 = (a::nat) mod 64"
  using tag_mod [of "a mod 64" 64 2] by simp

lemma digits2: "(v::nat) div 64 * 64 + v mod 64 = v"
  by simp

lemma digits3: "(v::nat) div 4096 * 4096 + (v div 64 mod 64) * 64 + v mod 64 = v"
proof -
  define x where "x = v div 64"
  have a: "v div 4096 = x div 64" by (simp add: x_def div_mult2_eq)
  have e: "x div 64 * 64 + x mod 64 = x" by simp
  have "(p * 64 + q) * 64 = p * 4096 + q * 64" for p q :: nat by simp
  from this [of "x div 64" "x mod 64"]
  have "x div 64 * 4096 + (x mod 64) * 64 = x * 64" by (simp only: e)
  then show ?thesis using a x_def by simp
qed

lemma digits4:
  "(v::nat) div 262144 * 262144 + (v div 4096 mod 64) * 4096 + (v div 64 mod 64) * 64 + v mod 64 = v"
proof -
  define x where "x = v div 4096"
  have a: "v div 262144 = x div 64" by (simp add: x_def div_mult2_eq)
  have e: "x div 64 * 64 + x mod 64 = x" by simp
  have "(p * 64 + q) * 4096 = p * 262144 + q * 4096" for p q :: nat by simp
  from this [of "x div 64" "x mod 64"]
  have "x div 64 * 262144 + (x mod 64) * 4096 = x * 4096" by (simp only: e)
  then show ?thesis using a x_def digits3 [of v] by simp
qed

lemma unat_and_mask: "unat ((x :: 'a::len word) AND mask n) = unat x mod 2 ^ n"
  by (metis take_bit_eq_mask take_bit_eq_mod unsigned_take_bit_eq)

lemma byte_and_maskx: "unat ((x :: byte) AND maskx) = unat x mod 64"
proof -
  have "maskx = mask 6" by (simp add: maskx_def mask_eq_exp_minus_1)
  then show ?thesis using unat_and_mask [of x 6] by simp
qed

lemma byte_and_mask2: "unat ((x :: byte) AND mask2) = unat x mod 32"
proof -
  have "mask2 = mask 5" by (simp add: mask2_def mask_eq_exp_minus_1)
  then show ?thesis using unat_and_mask [of x 5] by simp
qed

lemma byte_and_mask3: "unat ((x :: byte) AND mask3) = unat x mod 16"
proof -
  have "mask3 = mask 4" by (simp add: mask3_def mask_eq_exp_minus_1)
  then show ?thesis using unat_and_mask [of x 4] by simp
qed

lemma byte_and_mask4: "unat ((x :: byte) AND mask4) = unat x mod 8"
proof -
  have "mask4 = mask 3" by (simp add: mask4_def mask_eq_exp_minus_1)
  then show ?thesis using unat_and_mask [of x 3] by simp
qed

lemma unat_byte_less: "unat (x :: byte) < 256"
  using unsigned_less [of x, where 'a = nat] by simp

lemma unat_ucast_up: "unat (ucast (x :: byte) :: rune) = unat x"
  using unat_byte_less [of x] by (simp add: unsigned_ucast_eq take_bit_eq_mod)

lemma unat_ucast_down: "unat (ucast (x :: rune) :: byte) = unat x mod 256"
  by (simp add: unsigned_ucast_eq take_bit_eq_mod)

lemma unat_drop_bit_rune: "unat (drop_bit n (x :: rune)) = unat x div 2 ^ n"
  by (metis drop_bit_eq_div unat_drop_bit_eq)

lemma or_eq_add_word:
  fixes a b :: "'a::len word"
  assumes "a AND b = 0"
  shows "a OR b = a + b"
  using assms by (simp add: disjunctive_add_eq_or)

lemma push_and_small:
  fixes a b :: rune
  assumes "unat a < 2 ^ n"
  shows "push_bit n b AND a = 0"
proof (rule bit_eqI)
  fix k
  have "a = take_bit n a"
    using assms by (metis take_bit_nat_eq_self unsigned_take_bit_eq word_unat_eq_iff)
  then have "bit a k \<Longrightarrow> k < n"
    by (metis bit_take_bit_iff)
  then show "bit (push_bit n b AND a) k = bit (0 :: rune) k"
    by (auto simp add: bit_simps)
qed


lemma unat_push_or:
  fixes a b :: rune
  assumes a: "unat a < 2 ^ n" and b: "unat b < 2 ^ (32 - n)" and n: "n \<le> 32"
  shows "unat (push_bit n b OR a) = unat b * 2 ^ n + unat a"
proof -
  have pw: "(2::nat) ^ (32 - n) * 2 ^ n = 2 ^ 32"
    using n by (simp flip: power_add)
  have lt: "unat b * 2 ^ n < 2 ^ 32"
    using b pw by (metis mult_less_cancel2 nat_0_less_mult_iff zero_less_numeral zero_less_power)
  have le: "unat b * 2 ^ n + 2 ^ n \<le> 2 ^ 32"
  proof -
    have "Suc (unat b) \<le> 2 ^ (32 - n)" using b by simp
    then have "Suc (unat b) * 2 ^ n \<le> 2 ^ (32 - n) * 2 ^ n"
      by (rule mult_le_mono1)
    then show ?thesis using pw by simp
  qed
  have "unat (push_bit n b) = take_bit LENGTH(32) (push_bit n (unat b))"
    by (rule unsigned_push_bit_eq)
  also have "\<dots> = (unat b * 2 ^ n) mod 2 ^ 32"
    by (simp only: push_bit_eq_mult take_bit_eq_mod) simp
  finally have p: "unat (push_bit n b) = unat b * 2 ^ n"
    using lt by simp
  have "push_bit n b OR a = push_bit n b + a"
    using push_and_small [OF a, of b] by (rule or_eq_add_word)
  moreover have "unat (push_bit n b + a) = unat (push_bit n b) + unat a"
  proof -
    have "unat (push_bit n b) + unat a < 2 ^ LENGTH(32)"
      using p a le by simp
    then show ?thesis by (simp only: unat_add_lem)
  qed
  ultimately show ?thesis using p by simp
qed

lemma tag_or_unat:
  fixes t y :: byte
  assumes y: "unat y < 2 ^ n" and t: "t AND mask n = 0" and s: "unat t + 2 ^ n \<le> 256"
    and n: "n < 8"
  shows "unat (t OR y) = unat t + unat y"
proof -
  have "y = take_bit n y"
    using y by (metis take_bit_nat_eq_self unsigned_take_bit_eq word_unat_eq_iff)
  then have "y AND mask n = y" by (metis take_bit_eq_mask)
  then have "t AND y = (t AND mask n) AND y"
    by (metis and.assoc and.commute)
  then have "t AND y = 0" using t by simp
  then have "t OR y = t + y" by (rule or_eq_add_word)
  moreover have "unat (t + y) = unat t + unat y"
  proof -
    have "unat t + unat y < 2 ^ LENGTH(8)"
      using y s by simp
    then show ?thesis by (simp only: unat_add_lem)
  qed
  ultimately show ?thesis by simp
qed

lemma cont_byte_unat: "unat (tx OR ((z :: byte) AND maskx)) = 128 + unat z mod 64"
proof -
  have m: "maskx = mask 6" by (simp add: maskx_def mask_eq_exp_minus_1)
  have "unat (tx OR (z AND maskx)) = unat tx + unat (z AND maskx)"
    by (rule tag_or_unat [where n = 6]) (simp_all add: byte_and_maskx tx_def flip: m, simp add: maskx_def)
  then show ?thesis by (simp add: byte_and_maskx tx_def)
qed


lemma cont_enc_unat:
  "unat (tx OR (ucast (drop_bit k (V :: rune)) AND maskx)) = 128 + (unat V div 2 ^ k) mod 64"
proof -
  have "unat (ucast (drop_bit k V) :: byte) mod 64 = (unat V div 2 ^ k) mod 64"
    by (simp add: unat_ucast_down unat_drop_bit_rune mod_mod_cancel)
  then show ?thesis by (simp add: cont_byte_unat)
qed

lemma cont_enc0_unat:
  "unat (tx OR (ucast (V :: rune) AND maskx)) = 128 + unat V mod 64"
  using cont_enc_unat [of 0 V] by simp

lemma lead_enc_unat:
  fixes t :: byte and V :: rune
  assumes small: "unat V div 2 ^ k < 2 ^ n" and t: "t AND mask n = 0"
    and s: "unat t + 2 ^ n \<le> 256" and n: "n < 8"
  shows "unat (t OR ucast (drop_bit k V)) = unat t + unat V div 2 ^ k"
proof -
  have "(2::nat) ^ n < 2 ^ 8" using n by (rule power_strict_increasing) simp
  then have lt: "unat V div 2 ^ k < 256" using small by simp
  have y: "unat (ucast (drop_bit k V) :: byte) = unat V div 2 ^ k"
    using lt by (simp add: unat_ucast_down unat_drop_bit_rune)
  show ?thesis
    using tag_or_unat [of "ucast (drop_bit k V)" n t] small t s n y by simp
qed

lemma first_unat:
  "first b =
     (if unat b < 128 then 0xF0
      else if unat b < 194 then 0xF1
      else if unat b < 224 then 0x02
      else if unat b = 224 then 0x13
      else if unat b < 237 then 0x03
      else if unat b = 237 then 0x23
      else if unat b < 240 then 0x03
      else if unat b = 240 then 0x34
      else if unat b < 244 then 0x04
      else if unat b = 244 then 0x44
      else 0xF1)"
  by (simp add: first_def word_less_nat_alt word_unat_eq_iff)

lemma dec2_unat:
  "unat (push_bit 6 (ucast ((p0 :: byte) AND mask2) :: rune) OR ucast ((b1 :: byte) AND maskx))
     = (unat p0 mod 32) * 64 + unat b1 mod 64"
proof -
  have a: "unat (ucast (b1 AND maskx) :: rune) < 2 ^ 6"
    by (simp add: unat_ucast_up byte_and_maskx)
  have b: "unat (ucast (p0 AND mask2) :: rune) < 2 ^ (32 - 6)"
    by (simp add: unat_ucast_up byte_and_mask2)
  show ?thesis
    using unat_push_or [OF a b] by (simp add: unat_ucast_up byte_and_maskx byte_and_mask2)
qed

lemma utf8_2:
  fixes V :: rune
  assumes lo: "0x80 \<le> V" and hi: "V \<le> 0x7FF"
  shows "length (EncodeRune V) = 2 \<and> FullRune (EncodeRune V)
         \<and> DecodeRune (EncodeRune V) = (V, 2)
         \<and> 0x80 \<le> EncodeRune V ! 0"
proof -
  define b0 :: byte where "b0 = t2 OR ucast (drop_bit 6 V)"
  define b1 :: byte where "b1 = tx OR (ucast V AND maskx)"
  have v: "128 \<le> unat V" "unat V \<le> 2047"
    using lo hi by (simp_all add: word_le_nat_alt)
  have enc: "EncodeRune V = [b0, b1]"
    using v by (simp add: EncodeRune_def rune1Max_def rune2Max_def word_le_nat_alt b0_def b1_def)
  have d: "2 \<le> unat V div 64" "unat V div 64 < 32"
    using v by arith+
  have u0: "unat b0 = 192 + unat V div 64"
    unfolding b0_def
    using lead_enc_unat [of V 6 5 t2] d
    by (simp add: t2_def mask_eq_exp_minus_1)
  have u1: "unat b1 = 128 + unat V mod 64"
    unfolding b1_def by (rule cont_enc0_unat)
  have f: "first b0 = 0x02"
    using d by (simp add: first_unat u0)
  have full: "FullRune [b0, b1]"
    by (simp add: FullRune_def f)
  have c1: "\<not> (b1 < locb \<or> hicb < b1)"
    by (simp add: locb_def hicb_def word_less_nat_alt u1)
  have val: "push_bit 6 (ucast (b0 AND mask2)) OR ucast (b1 AND maskx) = V"
    using d by (simp add: word_unat_eq_iff dec2_unat u0 u1 mod32_tag mod64_tag)
  have dec: "DecodeRune [b0, b1] = (V, 2)"
    using c1 val by (simp add: DecodeRune_def f acceptRanges_def Let_def)
  have "0x80 \<le> b0" by (simp add: word_le_nat_alt u0)
  then show ?thesis using enc full dec by simp
qed


lemma dec3_unat:
  "unat (push_bit 12 (ucast ((p0 :: byte) AND mask3) :: rune)
           OR push_bit 6 (ucast ((b1 :: byte) AND maskx)) OR ucast ((b2 :: byte) AND maskx))
     = (unat p0 mod 16) * 4096 + (unat b1 mod 64) * 64 + unat b2 mod 64"
proof -
  define Y :: rune where "Y = push_bit 6 (ucast (b1 AND maskx)) OR ucast (b2 AND maskx)"
  have c: "unat (ucast (b2 AND maskx) :: rune) < 2 ^ 6"
    by (simp add: unat_ucast_up byte_and_maskx)
  have b: "unat (ucast (b1 AND maskx) :: rune) < 2 ^ (32 - 6)"
    by (simp add: unat_ucast_up byte_and_maskx)
  have y: "unat Y = (unat b1 mod 64) * 64 + unat b2 mod 64"
    unfolding Y_def using unat_push_or [OF c b]
    by (simp add: unat_ucast_up byte_and_maskx)
  have "(unat b1 mod 64) * 64 + unat b2 mod 64 < 63 * 64 + 64"
    by (rule add_le_less_mono) simp_all
  then have y12: "unat Y < 2 ^ 12" using y by simp
  have a: "unat (ucast (p0 AND mask3) :: rune) < 2 ^ (32 - 12)"
    by (simp add: unat_ucast_up byte_and_mask3)
  show ?thesis
    using unat_push_or [OF y12 a] y
    by (simp add: unat_ucast_up byte_and_mask3 Y_def)
qed

lemma dec4_unat:
  "unat (push_bit 18 (ucast ((p0 :: byte) AND mask4) :: rune)
           OR push_bit 12 (ucast ((b1 :: byte) AND maskx))
           OR push_bit 6 (ucast ((b2 :: byte) AND maskx)) OR ucast ((b3 :: byte) AND maskx))
     = (unat p0 mod 8) * 262144 + (unat b1 mod 64) * 4096 + (unat b2 mod 64) * 64
       + unat b3 mod 64"
proof -
  define Y :: rune where "Y = push_bit 6 (ucast (b2 AND maskx)) OR ucast (b3 AND maskx)"
  define Z :: rune where "Z = push_bit 12 (ucast (b1 AND maskx)) OR Y"
  have c: "unat (ucast (b3 AND maskx) :: rune) < 2 ^ 6"
    by (simp add: unat_ucast_up byte_and_maskx)
  have b: "unat (ucast (b2 AND maskx) :: rune) < 2 ^ (32 - 6)"
    by (simp add: unat_ucast_up byte_and_maskx)
  have y: "unat Y = (unat b2 mod 64) * 64 + unat b3 mod 64"
    unfolding Y_def using unat_push_or [OF c b]
    by (simp add: unat_ucast_up byte_and_maskx)
  have "(unat b2 mod 64) * 64 + unat b3 mod 64 < 63 * 64 + 64"
    by (rule add_le_less_mono) simp_all
  then have y12: "unat Y < 2 ^ 12" using y by simp
  have b1: "unat (ucast (b1 AND maskx) :: rune) < 2 ^ (32 - 12)"
    by (simp add: unat_ucast_up byte_and_maskx)
  have z: "unat Z = (unat b1 mod 64) * 4096 + (unat b2 mod 64) * 64 + unat b3 mod 64"
    unfolding Z_def using unat_push_or [OF y12 b1] y
    by (simp add: unat_ucast_up byte_and_maskx)
  have "(unat b1 mod 64) * 4096 + ((unat b2 mod 64) * 64 + unat b3 mod 64) < 63 * 4096 + 4096"
    by (rule add_le_less_mono) (use y y12 in simp_all)
  then have z18: "unat Z < 2 ^ 18" using z by simp
  have a: "unat (ucast (p0 AND mask4) :: rune) < 2 ^ (32 - 18)"
    by (simp add: unat_ucast_up byte_and_mask4)
  show ?thesis
    using unat_push_or [OF z18 a] z
    by (simp add: unat_ucast_up byte_and_mask4 Z_def Y_def)
qed


lemma DecodeRune_3:
  assumes "first b0 = x" and "x < 0xF0" and "unat (x AND 7) = 3"
    and "acceptRanges (drop_bit 4 x) = (lo, hi)"
    and "lo \<le> b1" and "b1 \<le> hi" and "locb \<le> b2" and "b2 \<le> hicb"
  shows "DecodeRune [b0, b1, b2]
           = (push_bit 12 (ucast (b0 AND mask3)) OR push_bit 6 (ucast (b1 AND maskx))
                OR ucast (b2 AND maskx), 3)"
    and "FullRune [b0, b1, b2]"
  using assms by (simp_all add: DecodeRune_def FullRune_def Let_def not_less [symmetric])

lemma DecodeRune_4:
  assumes "first b0 = x" and "x < 0xF0" and "unat (x AND 7) = 4"
    and "acceptRanges (drop_bit 4 x) = (lo, hi)"
    and "lo \<le> b1" and "b1 \<le> hi" and "locb \<le> b2" and "b2 \<le> hicb"
    and "locb \<le> b3" and "b3 \<le> hicb"
  shows "DecodeRune [b0, b1, b2, b3]
           = (push_bit 18 (ucast (b0 AND mask4)) OR push_bit 12 (ucast (b1 AND maskx))
                OR push_bit 6 (ucast (b2 AND maskx)) OR ucast (b3 AND maskx), 4)"
    and "FullRune [b0, b1, b2, b3]"
  using assms by (simp_all add: DecodeRune_def FullRune_def Let_def not_less [symmetric])

lemma mod64_range:
  fixes x :: nat
  assumes "64 * k + l \<le> x" and "x \<le> 64 * k + h" and "h < 64"
  shows "l \<le> x mod 64 \<and> x mod 64 \<le> h"
proof -
  define r where "r = x - 64 * k"
  have x: "x = 64 * k + r" and r: "l \<le> r" "r \<le> h" using assms by (simp_all add: r_def)
  then have "x mod 64 = r" using assms(3) by simp
  then show ?thesis using r by simp
qed


lemma div_bounds:
  fixes v :: nat
  assumes "0 < q" and "a * q \<le> v" and "v < b * q"
  shows "a \<le> v div q" and "v div q < b"
  using assms by (simp_all add: less_eq_div_iff_mult_less_eq div_less_iff_less_mult)

lemma div_eq_bounds:
  fixes v :: nat
  assumes "0 < q" and "v div q = a"
  shows "a * q \<le> v" and "v < (a + 1) * q"
proof -
  have "v = v div q * q + v mod q" by simp
  moreover have "v mod q < q" using assms(1) by simp
  ultimately show "a * q \<le> v" and "v < (a + 1) * q"
    using assms(2) by (metis le_add1, metis add.commute add_less_cancel_left mult.commute mult_Suc_right Suc_eq_plus1)
qed

lemma utf8_3:
  fixes V :: rune
  assumes lo: "0x800 \<le> V" and hi: "V \<le> 0xFFFF" and ns: "\<not> (0xD800 \<le> V \<and> V \<le> 0xDFFF)"
  shows "length (EncodeRune V) = 3 \<and> FullRune (EncodeRune V)
         \<and> DecodeRune (EncodeRune V) = (V, 3)
         \<and> 0x80 \<le> EncodeRune V ! 0"
proof -
  define b0 :: byte where "b0 = t3 OR ucast (drop_bit 12 V)"
  define b1 :: byte where "b1 = tx OR (ucast (drop_bit 6 V) AND maskx)"
  define b2 :: byte where "b2 = tx OR (ucast V AND maskx)"
  define v where "v = unat V"
  have v: "2048 \<le> v" "v \<le> 65535" "\<not> (55296 \<le> v \<and> v \<le> 57343)"
    using lo hi ns by (simp_all add: word_le_nat_alt v_def)
  have enc: "EncodeRune V = [b0, b1, b2]"
  proof -
    have n1: "(V \<le> rune1Max) = False"
      using v by (simp add: rune1Max_def word_le_nat_alt v_def)
    have n2: "(V \<le> rune2Max) = False"
      using v by (simp add: rune2Max_def word_le_nat_alt v_def)
    have n3: "(V > MaxRune \<or> (surrogateMin \<le> V \<and> V \<le> surrogateMax)) = False"
      using v ns by (simp add: MaxRune_def word_less_nat_alt v_def surrogateMin_def surrogateMax_def)
    have n5: "(V \<le> rune3Max) = True" using hi by (simp add: rune3Max_def)
    show ?thesis
      unfolding EncodeRune_def encode3_def b0_def b1_def b2_def
      by (simp only: n1 n2 n3 n5 if_False if_True)
  qed
  have d: "v div 4096 < 16"
    using v(2) div_bounds(2) [of 4096 0 v 16] by simp
  have u0: "unat b0 = 224 + v div 4096"
    unfolding b0_def v_def
    using lead_enc_unat [of V 12 4 t3] d
    by (simp add: t3_def mask_eq_exp_minus_1 v_def)
  have u1: "unat b1 = 128 + (v div 64) mod 64"
    unfolding b1_def v_def using cont_enc_unat [of 6 V] by simp
  have u2: "unat b2 = 128 + v mod 64"
    unfolding b2_def v_def by (rule cont_enc0_unat)
  have c2: "locb \<le> b2" "b2 \<le> hicb"
    by (simp_all add: locb_def hicb_def word_le_nat_alt u2)
  have c1: "128 \<le> unat b1" "unat b1 \<le> 191"
    by (simp_all add: u1)
  have val: "push_bit 12 (ucast (b0 AND mask3)) OR push_bit 6 (ucast (b1 AND maskx))
                OR ucast (b2 AND maskx) = V"
    using d digits3 [of v]
    by (simp add: word_unat_eq_iff dec3_unat u0 u1 u2 mod16_tag mod64_tag v_def)
  have "\<exists>x plo phi. first b0 = x \<and> x < 0xF0 \<and> unat (x AND 7) = 3
          \<and> acceptRanges (drop_bit 4 x) = (plo, phi) \<and> plo \<le> b1 \<and> b1 \<le> phi"
  proof (cases "v div 4096 = 0")
    case True
    then have "v < 4096" using div_eq_bounds(2) [of 4096 v 0] by simp
    then have "32 \<le> v div 64" "v div 64 < 64"
      using v(1) div_bounds [of 64 32 v 64] by simp_all
    then have "64 * 0 + 32 \<le> v div 64" "v div 64 \<le> 64 * 0 + 63"
      by simp_all
    then have "32 \<le> (v div 64) mod 64" using mod64_range [of 0 32 "v div 64" 63] by simp
    then have "0xA0 \<le> b1" "b1 \<le> hicb"
      by (simp_all add: word_le_nat_alt u1 hicb_def)
    moreover have "first b0 = 0x13" using True by (simp add: first_unat u0)
    ultimately show ?thesis by (simp add: acceptRanges_def)
  next
    case False
    show ?thesis
    proof (cases "v div 4096 = 13")
      case True
      then have "53248 \<le> v" "v < 57344"
        using div_eq_bounds [of 4096 v 13] by simp_all
      then have "53248 \<le> v" "v < 55296" using v(3) by simp_all
      then have "832 \<le> v div 64" "v div 64 < 864"
        using div_bounds [of 64 832 v 864] by simp_all
      then have "64 * 13 + 0 \<le> v div 64" "v div 64 \<le> 64 * 13 + 31"
        by simp_all
      then have "(v div 64) mod 64 \<le> 31" using mod64_range [of 13 0 "v div 64" 31] by simp
      then have "locb \<le> b1" "b1 \<le> 0x9F"
        by (simp_all add: word_le_nat_alt u1 locb_def)
      moreover have "first b0 = 0x23" using True by (simp add: first_unat u0)
      ultimately show ?thesis by (simp add: acceptRanges_def)
    next
      case F2: False
      have "locb \<le> b1" "b1 \<le> hicb"
        by (simp_all add: word_le_nat_alt u1 locb_def hicb_def)
      moreover have "first b0 = 0x03" using False F2 d by (simp add: first_unat u0)
      ultimately show ?thesis by (simp add: acceptRanges_def)
    qed
  qed
  then obtain x plo phi where "first b0 = x" "x < 0xF0" "unat (x AND 7) = 3"
    "acceptRanges (drop_bit 4 x) = (plo, phi)" "plo \<le> b1" "b1 \<le> phi"
    by blast
  from DecodeRune_3 [OF this c2]
  have "DecodeRune [b0, b1, b2] = (V, 3)" "FullRune [b0, b1, b2]"
    using val by simp_all
  moreover have "0x80 \<le> b0" by (simp add: word_le_nat_alt u0)
  ultimately show ?thesis using enc by simp
qed


lemma utf8_4:
  fixes V :: rune
  assumes lo: "0x10000 \<le> V" and hi: "V \<le> 0x10FFFF"
  shows "length (EncodeRune V) = 4 \<and> FullRune (EncodeRune V)
         \<and> DecodeRune (EncodeRune V) = (V, 4)
         \<and> 0x80 \<le> EncodeRune V ! 0"
proof -
  define b0 :: byte where "b0 = t4 OR ucast (drop_bit 18 V)"
  define b1 :: byte where "b1 = tx OR (ucast (drop_bit 12 V) AND maskx)"
  define b2 :: byte where "b2 = tx OR (ucast (drop_bit 6 V) AND maskx)"
  define b3 :: byte where "b3 = tx OR (ucast V AND maskx)"
  define v where "v = unat V"
  have v: "65536 \<le> v" "v \<le> 1114111"
    using lo hi by (simp_all add: word_le_nat_alt v_def)
  have enc: "EncodeRune V = [b0, b1, b2, b3]"
  proof -
    have n1: "(V \<le> rune1Max) = False"
      using v by (simp add: rune1Max_def word_le_nat_alt v_def)
    have n2: "(V \<le> rune2Max) = False"
      using v by (simp add: rune2Max_def word_le_nat_alt v_def)
    have n3: "(V > MaxRune \<or> (surrogateMin \<le> V \<and> V \<le> surrogateMax)) = False"
      using v
      by (simp add: MaxRune_def word_less_nat_alt word_le_nat_alt v_def surrogateMin_def
            surrogateMax_def)
    have n5: "(V \<le> rune3Max) = False"
      using v by (simp add: rune3Max_def word_le_nat_alt v_def)
    show ?thesis
      unfolding EncodeRune_def b0_def b1_def b2_def b3_def
      by (simp only: n1 n2 n3 n5 if_False if_True)
  qed
  have d: "v div 262144 < 5"
    using v(2) div_bounds(2) [of 262144 0 v 5] by simp
  have u0: "unat b0 = 240 + v div 262144"
    unfolding b0_def v_def
    using lead_enc_unat [of V 18 3 t4] d
    by (simp add: t4_def mask_eq_exp_minus_1 v_def)
  have u1: "unat b1 = 128 + (v div 4096) mod 64"
    unfolding b1_def v_def using cont_enc_unat [of 12 V] by simp
  have u2: "unat b2 = 128 + (v div 64) mod 64"
    unfolding b2_def v_def using cont_enc_unat [of 6 V] by simp
  have u3: "unat b3 = 128 + v mod 64"
    unfolding b3_def v_def by (rule cont_enc0_unat)
  have c2: "locb \<le> b2" "b2 \<le> hicb"
    by (simp_all add: locb_def hicb_def word_le_nat_alt u2)
  have c3: "locb \<le> b3" "b3 \<le> hicb"
    by (simp_all add: locb_def hicb_def word_le_nat_alt u3)
  have val: "push_bit 18 (ucast (b0 AND mask4)) OR push_bit 12 (ucast (b1 AND maskx))
                OR push_bit 6 (ucast (b2 AND maskx)) OR ucast (b3 AND maskx) = V"
    using d digits4 [of v]
    by (simp add: word_unat_eq_iff dec4_unat u0 u1 u2 u3 mod8_tag mod64_tag v_def)
  have "\<exists>x plo phi. first b0 = x \<and> x < 0xF0 \<and> unat (x AND 7) = 4
          \<and> acceptRanges (drop_bit 4 x) = (plo, phi) \<and> plo \<le> b1 \<and> b1 \<le> phi"
  proof (cases "v div 262144 = 0")
    case True
    then have "v < 262144" using div_eq_bounds(2) [of 262144 v 0] by simp
    then have "16 \<le> v div 4096" "v div 4096 < 64"
      using v(1) div_bounds [of 4096 16 v 64] by simp_all
    then have "64 * 0 + 16 \<le> v div 4096" "v div 4096 \<le> 64 * 0 + 63"
      by simp_all
    then have "16 \<le> (v div 4096) mod 64"
      using mod64_range [of 0 16 "v div 4096" 63] by simp
    then have "0x90 \<le> b1" "b1 \<le> hicb"
      by (simp_all add: word_le_nat_alt u1 hicb_def)
    moreover have "first b0 = 0x34" using True by (simp add: first_unat u0)
    ultimately show ?thesis by (simp add: acceptRanges_def)
  next
    case False
    show ?thesis
    proof (cases "v div 262144 = 4")
      case True
      then have "1048576 \<le> v" using div_eq_bounds(1) [of 262144 v 4] by simp
      then have "256 \<le> v div 4096" "v div 4096 < 272"
        using v(2) div_bounds [of 4096 256 v 272] by simp_all
      then have "64 * 4 + 0 \<le> v div 4096" "v div 4096 \<le> 64 * 4 + 15"
        by simp_all
      then have "(v div 4096) mod 64 \<le> 15"
        using mod64_range [of 4 0 "v div 4096" 15] by simp
      then have "locb \<le> b1" "b1 \<le> 0x8F"
        by (simp_all add: word_le_nat_alt u1 locb_def)
      moreover have "first b0 = 0x44" using True by (simp add: first_unat u0)
      ultimately show ?thesis by (simp add: acceptRanges_def)
    next
      case F2: False
      have "locb \<le> b1" "b1 \<le> hicb"
        by (simp_all add: word_le_nat_alt u1 locb_def hicb_def)
      moreover have "first b0 = 0x04" using False F2 d by (simp add: first_unat u0)
      ultimately show ?thesis by (simp add: acceptRanges_def)
    qed
  qed
  then obtain x plo phi where "first b0 = x" "x < 0xF0" "unat (x AND 7) = 4"
    "acceptRanges (drop_bit 4 x) = (plo, phi)" "plo \<le> b1" "b1 \<le> phi"
    by blast
  from DecodeRune_4 [OF this c2 c3]
  have "DecodeRune [b0, b1, b2, b3] = (V, 4)" "FullRune [b0, b1, b2, b3]"
    using val by simp_all
  moreover have "0x80 \<le> b0" by (simp add: word_le_nat_alt u0)
  ultimately show ?thesis using enc by simp
qed


lemma first_multi:
  assumes "first b < 0xF0"
  shows "first b = 0x02 \<or> first b = 0x13 \<or> first b = 0x03 \<or> first b = 0x23
         \<or> first b = 0x34 \<or> first b = 0x04 \<or> first b = 0x44"
    and "0x80 \<le> b"
  using assms by (auto simp add: first_def split: if_splits)

lemma first_single:
  assumes "\<not> first b < 0xF0"
  shows "unat (first b AND 7) \<le> 1" and "0xF0 \<le> first b"
  using assms by (auto simp add: first_def split: if_splits)

lemma lead_shape:
  assumes "first b = x" and "x < 0xF0"
  obtains lo hi sz where "acceptRanges (drop_bit 4 x) = (lo, hi)" and "unat (x AND 7) = sz"
    and "2 \<le> sz" and "sz \<le> 4" and "lo \<le> hi"
proof -
  have "x = 0x02 \<or> x = 0x13 \<or> x = 0x03 \<or> x = 0x23 \<or> x = 0x34 \<or> x = 0x04 \<or> x = 0x44"
    using first_multi(1) [of b] assms by simp
  then have "\<exists>lo hi sz. acceptRanges (drop_bit 4 x) = (lo, hi) \<and> unat (x AND 7) = sz
                \<and> 2 \<le> sz \<and> sz \<le> 4 \<and> lo \<le> hi"
    by (elim disjE) (simp_all add: acceptRanges_def locb_def hicb_def)
  then show ?thesis using that by blast
qed

lemma DecodeRune_size:
  assumes "bs \<noteq> []" and "first (bs ! 0) = x" and "x < 0xF0"
    and "acceptRanges (drop_bit 4 x) = (lo, hi)" and "unat (x AND 7) = sz"
    and "2 \<le> sz" and "sz \<le> 4"
  shows "snd (DecodeRune bs) =
           (if sz \<le> length bs \<and> lo \<le> bs ! 1 \<and> bs ! 1 \<le> hi
               \<and> (3 \<le> sz \<longrightarrow> locb \<le> bs ! 2 \<and> bs ! 2 \<le> hicb)
               \<and> (4 \<le> sz \<longrightarrow> locb \<le> bs ! 3 \<and> bs ! 3 \<le> hicb)
            then sz else 1)"
proof -
  have n: "\<not> length bs < 1" using assms(1) by (cases bs) simp_all
  have x: "\<not> 0xF0 \<le> x" using assms(3) by simp
  show ?thesis
    unfolding DecodeRune_def Let_def
    using n x assms(2,4,5,6,7)
    by (auto simp add: not_le not_less)
qed

lemma FullRune_multi:
  assumes "bs \<noteq> []" and "first (bs ! 0) = x"
    and "acceptRanges (drop_bit 4 x) = (lo, hi)" and "unat (x AND 7) = sz"
  shows "FullRune bs =
           (sz \<le> length bs \<or> (1 < length bs \<and> (bs ! 1 < lo \<or> hi < bs ! 1))
            \<or> (2 < length bs \<and> (bs ! 2 < locb \<or> hicb < bs ! 2)))"
  using assms by (auto simp add: FullRune_def Let_def)


lemma DecodeRune_single:
  assumes "bs \<noteq> []" and "\<not> first (bs ! 0) < 0xF0"
  shows "snd (DecodeRune bs) = 1"
proof -
  have n: "\<not> length bs < 1" using assms(1) by (cases bs) simp_all
  show ?thesis
    unfolding DecodeRune_def Let_def using n first_single(2) [OF assms(2)] by simp
qed

lemma incomplete_has_completion:
  assumes ne: "seq \<noteq> []" and nf: "\<not> FullRune seq"
  shows "\<exists>suffix. suffix \<noteq> [] \<and> validMultiByte (seq @ suffix)"
proof -
  define x where "x = first (seq ! 0)"
  have len: "1 \<le> length seq" using ne by (cases seq) simp_all
  have multi: "x < 0xF0"
  proof (rule ccontr)
    assume "\<not> x < 0xF0"
    then have "unat (x AND 7) \<le> 1" using first_single(1) [of "seq ! 0"] by (simp add: x_def)
    then have "FullRune seq" using len ne by (simp add: FullRune_def Let_def x_def)
    then show False using nf by simp
  qed
  obtain lo hi sz where sh: "acceptRanges (drop_bit 4 x) = (lo, hi)" "unat (x AND 7) = sz"
    "2 \<le> sz" "sz \<le> 4" "lo \<le> hi"
    using lead_shape [of "seq ! 0" x] multi by (auto simp add: x_def)
  have fr: "\<not> sz \<le> length seq" "1 < length seq \<longrightarrow> lo \<le> seq ! 1 \<and> seq ! 1 \<le> hi"
    "2 < length seq \<longrightarrow> locb \<le> seq ! 2 \<and> seq ! 2 \<le> hicb"
    using nf FullRune_multi [OF ne x_def [symmetric] sh(1,2)] by (auto simp add: not_less)
  define pad where "pad = drop (length seq) (take sz [seq ! 0, lo, locb, locb])"
  have lp: "length pad = sz - length seq" using sh(4) by (simp add: pad_def)
  then have pne: "pad \<noteq> []" using fr(1) by auto
  have lf: "length (seq @ pad) = sz" using lp fr(1) by simp
  have cb: "locb \<le> locb" "locb \<le> hicb" by (simp_all add: locb_def hicb_def)
  have i0: "(seq @ pad) ! 0 = seq ! 0" using ne by (simp add: nth_append)
  have i1: "lo \<le> (seq @ pad) ! 1 \<and> (seq @ pad) ! 1 \<le> hi"
  proof (cases "1 < length seq")
    case True
    then show ?thesis using fr(2) by (simp add: nth_append)
  next
    case False
    then have "length seq = 1" using len by simp
    then show ?thesis using sh(3,5) by (simp add: nth_append pad_def)
  qed
  have i2: "3 \<le> sz \<longrightarrow> locb \<le> (seq @ pad) ! 2 \<and> (seq @ pad) ! 2 \<le> hicb"
  proof (cases "2 < length seq")
    case True
    then show ?thesis using fr(3) by (simp add: nth_append)
  next
    case False
    then have "length seq = 1 \<or> length seq = 2" using len by arith
    then show ?thesis using cb by (auto simp add: nth_append pad_def)
  qed
  have i3: "4 \<le> sz \<longrightarrow> locb \<le> (seq @ pad) ! 3 \<and> (seq @ pad) ! 3 \<le> hicb"
  proof
    assume "4 \<le> sz"
    then have sz4: "sz = 4" using sh(4) by simp
    then have "length seq = 1 \<or> length seq = 2 \<or> length seq = 3" using len fr(1) by arith
    then show "locb \<le> (seq @ pad) ! 3 \<and> (seq @ pad) ! 3 \<le> hicb"
      using cb sz4 by (auto simp add: nth_append pad_def)
  qed
  have "snd (DecodeRune (seq @ pad)) = sz"
    using DecodeRune_size [of "seq @ pad" x lo hi sz] ne multi sh i0 i1 i2 i3 lf
    by (simp add: x_def)
  then have "validMultiByte (seq @ pad)"
    using lf sh(3) by (simp add: validMultiByte_def)
  then show ?thesis using pne by blast
qed

lemma prefix_not_full:
  assumes ne: "seq \<noteq> []" and sne: "suffix \<noteq> []" and valid: "validMultiByte (seq @ suffix)"
  shows "\<not> FullRune seq" and "0x80 \<le> seq ! 0"
proof -
  define full where "full = seq @ suffix"
  define x where "x = first (seq ! 0)"
  have fne: "full \<noteq> []" using ne by (simp add: full_def)
  have f0: "full ! 0 = seq ! 0" using ne by (simp add: full_def nth_append)
  have v: "2 \<le> length full" "snd (DecodeRune full) = length full"
    using valid by (simp_all add: validMultiByte_def full_def)
  have multi: "x < 0xF0"
  proof (rule ccontr)
    assume "\<not> x < 0xF0"
    then have "snd (DecodeRune full) = 1"
      using DecodeRune_single [OF fne] by (simp add: f0 x_def)
    then show False using v by simp
  qed
  obtain lo hi sz where sh: "acceptRanges (drop_bit 4 x) = (lo, hi)" "unat (x AND 7) = sz"
    "2 \<le> sz" "sz \<le> 4" "lo \<le> hi"
    using lead_shape [of "seq ! 0" x] multi by (auto simp add: x_def)
  have ds: "snd (DecodeRune full) =
           (if sz \<le> length full \<and> lo \<le> full ! 1 \<and> full ! 1 \<le> hi
               \<and> (3 \<le> sz \<longrightarrow> locb \<le> full ! 2 \<and> full ! 2 \<le> hicb)
               \<and> (4 \<le> sz \<longrightarrow> locb \<le> full ! 3 \<and> full ! 3 \<le> hicb)
            then sz else 1)"
    using DecodeRune_size [of full x lo hi sz] fne multi sh by (simp add: f0 x_def)
  have c: "length full = sz" "lo \<le> full ! 1" "full ! 1 \<le> hi"
    "3 \<le> sz \<longrightarrow> locb \<le> full ! 2 \<and> full ! 2 \<le> hicb"
    using ds v by (auto split: if_splits)
  have n: "length seq < sz" using c(1) sne by (cases suffix) (auto simp add: full_def)
  have p1: "1 < length seq \<longrightarrow> seq ! 1 = full ! 1"
    and p2: "2 < length seq \<longrightarrow> seq ! 2 = full ! 2"
    by (simp_all add: full_def nth_append)
  have "FullRune seq =
           (sz \<le> length seq \<or> (1 < length seq \<and> (seq ! 1 < lo \<or> hi < seq ! 1))
            \<or> (2 < length seq \<and> (seq ! 2 < locb \<or> hicb < seq ! 2)))"
    using FullRune_multi [OF ne x_def [symmetric] sh(1,2)] .
  then show "\<not> FullRune seq"
    using n c p1 p2 by (auto simp add: not_less)
  show "0x80 \<le> seq ! 0"
    using first_multi(2) [of "seq ! 0"] multi by (simp add: x_def)
qed

section \<open>The parser on single bytes and on the sequences of the trie\<close>

lemmas Key_defs = KeyUnknown_def KeyEscape_def KeyEnter_def KeyBackspace_def KeyTab_def KeyDelete_def KeyInsert_def KeyUp_def KeyDown_def KeyLeft_def KeyRight_def KeyHome_def KeyEnd_def KeyPageUp_def KeyPageDown_def KeyF1_def KeyF2_def KeyF3_def KeyF4_def KeyF5_def KeyF6_def KeyF7_def KeyF8_def KeyF9_def KeyF10_def KeyF11_def KeyF12_def KeyA_def KeyB_def KeyC_def KeyD_def KeyE_def KeyF_def KeyG_def KeyH_def KeyI_def KeyJ_def KeyK_def KeyL_def KeyM_def KeyN_def KeyO_def KeyP_def KeyQ_def KeyR_def KeyS_def KeyT_def KeyU_def KeyV_def KeyW_def KeyX_def KeyY_def KeyZ_def Key0_def Key1_def Key2_def Key3_def Key4_def Key5_def Key6_def Key7_def Key8_def Key9_def KeyCtrlA_def KeyCtrlB_def KeyCtrlC_def KeyCtrlD_def KeyCtrlE_def KeyCtrlF_def KeyCtrlG_def KeyCtrlH_def KeyCtrlI_def KeyCtrlJ_def KeyCtrlK_def KeyCtrlL_def KeyCtrlM_def KeyCtrlN_def KeyCtrlO_def KeyCtrlP_def KeyCtrlQ_def KeyCtrlR_def KeyCtrlS_def KeyCtrlT_def KeyCtrlU_def KeyCtrlV_def KeyCtrlW_def KeyCtrlX_def KeyCtrlY_def KeyCtrlZ_def KeySpace_def

text \<open>
  C1. The single-byte table of the claim gives Tab for 0x09, Enter for 0x0D and
  Backspace for 0x08. \<^verbatim>\<open>Parse\<close> tests the range 0x01..0x1A first, so the three bytes
  never reach their own branches: 0x09 and 0x0D fall to the \<^verbatim>\<open>default\<close> of
  \<^verbatim>\<open>ctrlCharToKey\<close> (whose comments say they are handled separately) and come out as
  \<^verbatim>\<open>KeyUnknown\<close> with the Ctrl modifier and no rune; 0x08 comes out as Ctrl+H.
\<close>

theorem Parse_tab_enter_backspace_bytes:
  "Parse NewSequenceParser now [0x09] =
     Inr \<lparr>Key = KeyUnknown, Rune = 0, Modifiers = ModCtrl, Timestamp = now,
          Pressed = True, Repeat = False\<rparr>
   \<and> Parse NewSequenceParser now [0x0D] =
     Inr \<lparr>Key = KeyUnknown, Rune = 0, Modifiers = ModCtrl, Timestamp = now,
          Pressed = True, Repeat = False\<rparr>
   \<and> Parse NewSequenceParser now [0x08] =
     Inr \<lparr>Key = KeyCtrlH, Rune = 0, Modifiers = ModCtrl, Timestamp = now,
          Pressed = True, Repeat = False\<rparr>
   \<and> KeyUnknown \<noteq> KeyTab \<and> KeyUnknown \<noteq> KeyEnter \<and> KeyCtrlH \<noteq> KeyBackspace"
  by (simp add: Parse_def parseSingle_def ctrlCharToKey_def Key_defs)

text \<open>
  The rest of the single-byte table holds: Ctrl+C with the Ctrl modifier, Escape,
  Backspace for 0x7F, Space, and letters of both cases on one key.
\<close>

lemma Parse_single_byte_examples:
  "Parse NewSequenceParser now [0x03] =
     Inr \<lparr>Key = KeyCtrlC, Rune = 0, Modifiers = ModCtrl, Timestamp = now,
          Pressed = True, Repeat = False\<rparr>"
  "Parse NewSequenceParser now [0x1b] =
     Inr \<lparr>Key = KeyEscape, Rune = 0, Modifiers = 0, Timestamp = now,
          Pressed = True, Repeat = False\<rparr>"
  "Parse NewSequenceParser now [0x7f] =
     Inr \<lparr>Key = KeyBackspace, Rune = 0, Modifiers = 0, Timestamp = now,
          Pressed = True, Repeat = False\<rparr>"
  "Parse NewSequenceParser now [0x20] =
     Inr \<lparr>Key = KeySpace, Rune = 0x20, Modifiers = 0, Timestamp = now,
          Pressed = True, Repeat = False\<rparr>"
  "Parse NewSequenceParser now [0x61] =
     Inr \<lparr>Key = KeyA, Rune = 0x61, Modifiers = 0, Timestamp = now,
          Pressed = True, Repeat = False\<rparr>"
  "Parse NewSequenceParser now [0x5A] =
     Inr \<lparr>Key = KeyZ, Rune = 0x5A, Modifiers = 0, Timestamp = now,
          Pressed = True, Repeat = False\<rparr>"
  "Parse NewSequenceParser now [0x35] =
     Inr \<lparr>Key = Key5, Rune = 0x35, Modifiers = 0, Timestamp = now,
          Pressed = True, Repeat = False\<rparr>"
  by (simp_all add: Parse_def parseSingle_def ctrlCharToKey_def runeToKey_def Key_defs
        word_sle_eq)

text \<open>
  In general: every control byte but 0x09 and 0x0D gives its Ctrl+letter key (the
  constants \<^verbatim>\<open>KeyCtrlA\<close>.. are consecutive), the letters of both cases give
  \<^verbatim>\<open>KeyA\<close>.. and the digits \<^verbatim>\<open>Key0\<close>..
\<close>

lemma byte_between:
  fixes b :: byte
  assumes "lo \<le> unat b" and "unat b \<le> lo + n"
  shows "\<exists>k \<le> n. b = of_nat (lo + k)"
proof -
  have "unat b = lo + (unat b - lo)" using assms(1) by simp
  then have "b = of_nat (lo + (unat b - lo))" by (metis of_nat_unat ucast_id)
  moreover have "unat b - lo \<le> n" using assms(2) by simp
  ultimately show ?thesis by blast
qed

lemma Parse_ctrl_byte:
  assumes "0x01 \<le> b" and "b \<le> 0x1a" and "b \<noteq> 0x09" and "b \<noteq> 0x0d"
  shows "Parse p now [b] =
           Inr \<lparr>Key = KeyCtrlA + (uint b - 1), Rune = 0, Modifiers = ModCtrl, Timestamp = now,
                Pressed = True, Repeat = False\<rparr>"
proof -
  have "1 \<le> unat b" "unat b \<le> 1 + 25"
    using assms(1,2) by (simp_all add: word_le_nat_alt)
  then obtain k where k: "k \<le> 25" "b = of_nat (1 + k)"
    using byte_between [of 1 b 25] by blast
  have "k = 0 \<or> k = 1 \<or> k = 2 \<or> k = 3 \<or> k = 4 \<or> k = 5 \<or> k = 6 \<or> k = 7 \<or> k = 8 \<or> k = 9 \<or> k = 10 \<or> k = 11 \<or> k = 12 \<or> k = 13 \<or> k = 14 \<or> k = 15 \<or> k = 16 \<or> k = 17 \<or> k = 18 \<or> k = 19 \<or> k = 20 \<or> k = 21 \<or> k = 22 \<or> k = 23 \<or> k = 24 \<or> k = 25"
    using k(1) by arith
  then show ?thesis
    using assms(3,4) unfolding k(2)
    by (elim disjE) (simp_all add: Parse_def parseSingle_def ctrlCharToKey_def Key_defs)
qed

lemma Parse_lower_byte:
  assumes "0x61 \<le> b" and "b \<le> 0x7A"
  shows "Parse p now [b] =
           Inr \<lparr>Key = KeyA + (uint b - 0x61), Rune = ucast b, Modifiers = 0, Timestamp = now,
                Pressed = True, Repeat = False\<rparr>"
proof -
  have "97 \<le> unat b" "unat b \<le> 97 + 25"
    using assms by (simp_all add: word_le_nat_alt)
  then obtain k where k: "k \<le> 25" "b = of_nat (97 + k)"
    using byte_between [of 97 b 25] by blast
  have "k = 0 \<or> k = 1 \<or> k = 2 \<or> k = 3 \<or> k = 4 \<or> k = 5 \<or> k = 6 \<or> k = 7 \<or> k = 8 \<or> k = 9 \<or> k = 10 \<or> k = 11 \<or> k = 12 \<or> k = 13 \<or> k = 14 \<or> k = 15 \<or> k = 16 \<or> k = 17 \<or> k = 18 \<or> k = 19 \<or> k = 20 \<or> k = 21 \<or> k = 22 \<or> k = 23 \<or> k = 24 \<or> k = 25"
    using k(1) by arith
  then show ?thesis
    unfolding k(2)
    by (elim disjE)
       (simp_all add: Parse_def parseSingle_def runeToKey_def word_sle_eq Key_defs)
qed

lemma Parse_upper_byte:
  assumes "0x41 \<le> b" and "b \<le> 0x5A"
  shows "Parse p now [b] =
           Inr \<lparr>Key = KeyA + (uint b - 0x41), Rune = ucast b, Modifiers = 0, Timestamp = now,
                Pressed = True, Repeat = False\<rparr>"
proof -
  have "65 \<le> unat b" "unat b \<le> 65 + 25"
    using assms by (simp_all add: word_le_nat_alt)
  then obtain k where k: "k \<le> 25" "b = of_nat (65 + k)"
    using byte_between [of 65 b 25] by blast
  have "k = 0 \<or> k = 1 \<or> k = 2 \<or> k = 3 \<or> k = 4 \<or> k = 5 \<or> k = 6 \<or> k = 7 \<or> k = 8 \<or> k = 9 \<or> k = 10 \<or> k = 11 \<or> k = 12 \<or> k = 13 \<or> k = 14 \<or> k = 15 \<or> k = 16 \<or> k = 17 \<or> k = 18 \<or> k = 19 \<or> k = 20 \<or> k = 21 \<or> k = 22 \<or> k = 23 \<or> k = 24 \<or> k = 25"
    using k(1) by arith
  then show ?thesis
    unfolding k(2)
    by (elim disjE)
       (simp_all add: Parse_def parseSingle_def runeToKey_def word_sle_eq Key_defs)
qed

lemma Parse_digit_byte:
  assumes "0x30 \<le> b" and "b \<le> 0x39"
  shows "Parse p now [b] =
           Inr \<lparr>Key = Key0 + (uint b - 0x30), Rune = ucast b, Modifiers = 0, Timestamp = now,
                Pressed = True, Repeat = False\<rparr>"
proof -
  have "48 \<le> unat b" "unat b \<le> 48 + 9"
    using assms by (simp_all add: word_le_nat_alt)
  then obtain k where k: "k \<le> 9" "b = of_nat (48 + k)"
    using byte_between [of 48 b 9] by blast
  have "k = 0 \<or> k = 1 \<or> k = 2 \<or> k = 3 \<or> k = 4 \<or> k = 5 \<or> k = 6 \<or> k = 7 \<or> k = 8 \<or> k = 9"
    using k(1) by arith
  then show ?thesis
    unfolding k(2)
    by (elim disjE)
       (simp_all add: Parse_def parseSingle_def runeToKey_def word_sle_eq Key_defs)
qed

text \<open>The trie that \<^verbatim>\<open>NewSequenceParser\<close> builds.\<close>

lemma root_NewSequenceParser:
  "root NewSequenceParser =
    SequenceNode 0 0 (Some [(0x1b, SequenceNode 0 0 (Some
      [(0x5B, SequenceNode 0 0 (Some
         [(0x41, SequenceNode 7 0 (Some [])),
          (0x42, SequenceNode 8 0 (Some [])),
          (0x43, SequenceNode 10 0 (Some [])),
          (0x44, SequenceNode 9 0 (Some [])),
          (0x48, SequenceNode 11 0 (Some [])),
          (0x46, SequenceNode 12 0 (Some [])),
          (0x32, SequenceNode 0 0 (Some
             [(0x7E, SequenceNode 6 0 (Some [])),
              (0x30, SequenceNode 0 0 (Some [(0x7E, SequenceNode 23 0 (Some []))])),
              (0x31, SequenceNode 0 0 (Some [(0x7E, SequenceNode 24 0 (Some []))])),
              (0x33, SequenceNode 0 0 (Some [(0x7E, SequenceNode 25 0 (Some []))])),
              (0x34, SequenceNode 0 0 (Some [(0x7E, SequenceNode 26 0 (Some []))]))])),
          (0x33, SequenceNode 0 0 (Some [(0x7E, SequenceNode 5 0 (Some []))])),
          (0x35, SequenceNode 0 0 (Some [(0x7E, SequenceNode 13 0 (Some []))])),
          (0x36, SequenceNode 0 0 (Some [(0x7E, SequenceNode 14 0 (Some []))])),
          (0x31, SequenceNode 0 0 (Some
             [(0x35, SequenceNode 0 0 (Some [(0x7E, SequenceNode 19 0 (Some []))])),
              (0x37, SequenceNode 0 0 (Some [(0x7E, SequenceNode 20 0 (Some []))])),
              (0x38, SequenceNode 0 0 (Some [(0x7E, SequenceNode 21 0 (Some []))])),
              (0x39, SequenceNode 0 0 (Some [(0x7E, SequenceNode 22 0 (Some []))]))]))])),
       (0x4F, SequenceNode 0 0 (Some
         [(0x50, SequenceNode 15 0 (Some [])),
          (0x51, SequenceNode 16 0 (Some [])),
          (0x52, SequenceNode 17 0 (Some [])),
          (0x53, SequenceNode 18 0 (Some []))]))]))])"
  by (simp add: NewSequenceParser_def buildTrie_def trieSequences_def Key_defs ModNone_def)

text \<open>
  C2. Every sequence that \<^verbatim>\<open>buildTrie\<close> inserts, with its key \<open>k\<close> and modifier
  \<open>m\<close>, is parsed without error to an Event with that key and modifier (pressed, no
  rune).
\<close>

theorem Parse_trie_sequence:
  "(s, k, m) \<in> set trieSequences \<Longrightarrow>
   Parse NewSequenceParser now s =
     Inr \<lparr>Key = k, Rune = 0, Modifiers = m, Timestamp = now, Pressed = True, Repeat = False\<rparr>"
  unfolding trieSequences_def
  by (auto simp add: Parse_def parseMulti_def root_NewSequenceParser Key_defs ModNone_def)

text \<open>The witness: ESC [ A is the Up arrow.\<close>

theorem Parse_trie_sequence_witness:
  "([0x1b, 0x5B, 0x41], KeyUp, ModNone) \<in> set trieSequences
   \<and> Parse NewSequenceParser 0 [0x1b, 0x5B, 0x41] =
     Inr \<lparr>Key = KeyUp, Rune = 0, Modifiers = ModNone, Timestamp = 0, Pressed = True,
          Repeat = False\<rparr>"
proof -
  have h: "([0x1b, 0x5B, 0x41], KeyUp, ModNone) \<in> set trieSequences"
    by (simp add: trieSequences_def)
  show ?thesis using h Parse_trie_sequence [OF h, of 0] by simp
qed

section \<open>The parser on UTF-8\<close>

lemma utf8_roundtrip:
  assumes sv: "scalarValue V" and ge: "0x80 \<le> V"
  shows "\<exists>n. 2 \<le> n \<and> n \<le> 4 \<and> length (EncodeRune V) = n \<and> FullRune (EncodeRune V)
           \<and> DecodeRune (EncodeRune V) = (V, n) \<and> 0x80 \<le> EncodeRune V ! 0"
proof (cases "V \<le> 0x7FF")
  case True
  then show ?thesis using utf8_2 [OF ge True] by auto
next
  case False
  then have lo3: "0x800 \<le> V" by (simp add: word_le_nat_alt)
  show ?thesis
  proof (cases "V \<le> 0xFFFF")
    case True
    have "\<not> (0xD800 \<le> V \<and> V \<le> 0xDFFF)"
      using sv by (simp add: scalarValue_def surrogateMin_def surrogateMax_def)
    then show ?thesis using utf8_3 [OF lo3 True] by auto
  next
    case F2: False
    then have lo4: "0x10000 \<le> V" by (simp add: word_le_nat_alt)
    have "V \<le> 0x10FFFF" using sv by (simp add: scalarValue_def MaxRune_def)
    then show ?thesis using utf8_4 [OF lo4] by auto
  qed
qed

lemma parseSingle_high: "0x80 \<le> b \<Longrightarrow> parseSingle event b = None"
  by (simp add: parseSingle_def word_le_nat_alt word_unat_eq_iff)

lemma parseSingle_no_error: "parseSingle event b \<noteq> Some (Inl e)"
  by (simp add: parseSingle_def)

text \<open>
  C3. For every Unicode scalar value \<open>V\<close> from 0x80 on (the values whose UTF-8
  encoding has 2, 3 or 4 bytes), \<^verbatim>\<open>Parse\<close> of exactly the bytes of the encoding
  returns, without error, an Event with \<^verbatim>\<open>Rune = V\<close> and \<^verbatim>\<open>Key = KeyUnknown\<close>.
\<close>

theorem Parse_utf8_encoding:
  assumes "scalarValue V" and "0x80 \<le> V"
  shows "Parse p now (EncodeRune V) =
           Inr \<lparr>Key = KeyUnknown, Rune = V, Modifiers = ModNone, Timestamp = now,
                Pressed = True, Repeat = False\<rparr>
         \<and> 2 \<le> length (EncodeRune V) \<and> length (EncodeRune V) \<le> 4"
proof -
  obtain n where n: "2 \<le> n" "n \<le> 4" "length (EncodeRune V) = n" "FullRune (EncodeRune V)"
    "DecodeRune (EncodeRune V) = (V, n)" "0x80 \<le> EncodeRune V ! 0"
    using utf8_roundtrip [OF assms] by blast
  have esc: "EncodeRune V ! 0 \<noteq> 0x1b"
    using n(6) by (auto simp add: word_le_nat_alt)
  show ?thesis
    using n esc
    by (simp add: Parse_def parseMulti_def parseSingle_high KeyUnknown_def ModNone_def)
qed

text \<open>The witness: the three bytes E6 97 A5 of U+65E5.\<close>

theorem Parse_utf8_encoding_witness:
  "scalarValue 0x65E5 \<and> (0x80 :: rune) \<le> 0x65E5
   \<and> EncodeRune 0x65E5 = [0xE6, 0x97, 0xA5]
   \<and> Parse NewSequenceParser 0 [0xE6, 0x97, 0xA5] =
         Inr \<lparr>Key = KeyUnknown, Rune = 0x65E5, Modifiers = ModNone, Timestamp = 0,
              Pressed = True, Repeat = False\<rparr>"
proof -
  have a: "scalarValue 0x65E5"
    by (simp add: scalarValue_def MaxRune_def surrogateMin_def surrogateMax_def)
  have b: "(0x80 :: rune) \<le> 0x65E5" by simp
  have c: "EncodeRune 0x65E5 = [0xE6, 0x97, 0xA5]"
    by (simp add: EncodeRune_def encode3_def rune1Max_def rune2Max_def rune3Max_def MaxRune_def
          surrogateMin_def surrogateMax_def t3_def tx_def maskx_def)
  show ?thesis
    using Parse_utf8_encoding [OF a b, of NewSequenceParser 0] a b c by simp
qed

section \<open>When the parser reports an error\<close>

lemma walkTrie_entries:
  "walkTrie n seq = Some node \<Longrightarrow> key node \<noteq> KeyUnknown \<Longrightarrow>
   (seq, key node, modifier node) \<in> set (trieEntries n)"
proof (induction seq arbitrary: n)
  case Nil
  then show ?case by (cases n) auto
next
  case (Cons b bs)
  obtain k m ch where n: "n = SequenceNode k m ch" by (cases n)
  from Cons.prems(1) n obtain c next' where c: "ch = Some c" and mo: "map_of c b = Some next'"
    and w: "walkTrie next' bs = Some node"
    by (auto split: option.splits)
  have mem: "(b, next') \<in> set c" using mo by (rule map_of_SomeD)
  have "(bs, key node, modifier node) \<in> set (trieEntries next')"
    using Cons.IH [OF w Cons.prems(2)] .
  then have "(b # bs, key node, modifier node)
      \<in> (\<lambda>skm. (b # fst skm, snd skm)) ` set (trieEntries next')"
    by force
  then show ?case using mem n c by force
qed

lemma trieEntries_NewSequenceParser:
  "set (trieEntries (root NewSequenceParser)) \<subseteq> set trieSequences"
  by (simp add: root_NewSequenceParser trieSequences_def Key_defs ModNone_def)


lemma Parse_error_cases:
  "(Parse p now seq = Inl e) =
     ((seq = [] \<and> e = ErrEmptySequence)
      \<or> (seq \<noteq> [] \<and> 0x80 \<le> seq ! 0 \<and> \<not> FullRune seq \<and> e = ErrIncompleteUTF8))"
proof (cases "seq = []")
  case True
  then show ?thesis by (auto simp add: Parse_def)
next
  case False
  define event where "event = \<lparr>Key = 0, Rune = 0, Modifiers = 0, Timestamp = now,
                      Pressed = True, Repeat = False\<rparr>"
  have multi: "(parseMulti p event seq = Inl e)
                 = (0x80 \<le> seq ! 0 \<and> \<not> FullRune seq \<and> e = ErrIncompleteUTF8)"
  proof (cases "0x80 \<le> seq ! 0")
    case True
    then have "seq ! 0 \<noteq> 0x1b" by (auto simp add: word_le_nat_alt)
    then show ?thesis using True False
      by (auto simp add: parseMulti_def split: prod.splits)
  next
    case F: False
    then show ?thesis
      by (auto simp add: parseMulti_def split: option.splits)
  qed
  show ?thesis
  proof (cases "length seq = 1")
    case True
    show ?thesis
    proof (cases "parseSingle event (seq ! 0)")
      case None
      then show ?thesis using False True multi
        by (simp add: Parse_def event_def [symmetric])
    next
      case (Some r)
      then have "\<not> 0x80 \<le> seq ! 0" using parseSingle_high [of "seq ! 0" event] by auto
      moreover have "r \<noteq> Inl e" using Some parseSingle_no_error [of event "seq ! 0" e] by auto
      ultimately show ?thesis using False True Some
        by (simp add: Parse_def event_def [symmetric])
    qed
  next
    case F1: False
    then show ?thesis using False multi
      by (simp add: Parse_def event_def [symmetric])
  qed
qed

lemma Parse_unknown_or_entry:
  assumes "Parse NewSequenceParser now seq = Inr ev" and "2 \<le> length seq"
  shows "Key ev = KeyUnknown \<or> (seq, Key ev, Modifiers ev) \<in> set trieSequences"
proof -
  define event where "event = \<lparr>Key = 0, Rune = 0, Modifiers = 0, Timestamp = now,
                      Pressed = True, Repeat = False\<rparr>"
  have nl: "length seq \<noteq> 1" "seq \<noteq> []" using assms(2) by auto
  have pm: "parseMulti NewSequenceParser event seq = Inr ev"
    using assms(1) nl by (simp add: Parse_def Let_def event_def)
  show ?thesis
  proof (cases "0 < length seq \<and> 0x80 \<le> seq ! 0 \<and> seq ! 0 \<noteq> 0x1b")
    case True
    then show ?thesis using pm
      by (auto simp add: parseMulti_def KeyUnknown_def split: prod.splits if_splits)
  next
    case False
    show ?thesis
    proof (cases "walkTrie (root NewSequenceParser) seq")
      case None
      then show ?thesis using pm False
        by (auto simp add: parseMulti_def KeyUnknown_def)
    next
      case (Some node)
      show ?thesis
      proof (cases "key node = KeyUnknown")
        case True
        then show ?thesis using pm False Some
          by (auto simp add: parseMulti_def KeyUnknown_def)
      next
        case F: False
        have "(seq, key node, modifier node) \<in> set trieSequences"
          using walkTrie_entries [OF Some F] trieEntries_NewSequenceParser by blast
        moreover have "Key ev = key node" "Modifiers ev = modifier node"
          using pm False Some F by (auto simp add: parseMulti_def)
        ultimately show ?thesis by simp
      qed
    qed
  qed
qed

text \<open>
  C4. \<^verbatim>\<open>Parse\<close> returns an error exactly in two cases: on the empty sequence
  (\<^verbatim>\<open>empty sequence\<close>), and on a non-empty proper prefix of a multi-byte UTF-8
  character (\<^verbatim>\<open>incomplete UTF-8 sequence\<close>, the need-more-bytes signal). Every other
  input yields an Event and no error; on two bytes or more its key is \<^verbatim>\<open>KeyUnknown\<close>
  unless the input is one of the sequences of the trie.
\<close>

theorem Parse_errors_only_empty_or_incomplete:
  "(Parse p now seq = Inl e) =
     ((seq = [] \<and> e = ErrEmptySequence)
      \<or> (e = ErrIncompleteUTF8 \<and> seq \<noteq> []
          \<and> (\<exists>suffix. suffix \<noteq> [] \<and> validMultiByte (seq @ suffix))))
   \<and> (\<forall>ev. Parse NewSequenceParser now seq = Inr ev \<longrightarrow> 2 \<le> length seq \<longrightarrow>
         Key ev = KeyUnknown \<or> (seq, Key ev, Modifiers ev) \<in> set trieSequences)"
proof -
  have A: "(seq \<noteq> [] \<and> 0x80 \<le> seq ! 0 \<and> \<not> FullRune seq)
       = (seq \<noteq> [] \<and> (\<exists>suffix. suffix \<noteq> [] \<and> validMultiByte (seq @ suffix)))"
    using incomplete_has_completion [of seq] prefix_not_full [of seq] by blast
  have B: "(Parse p now seq = Inl e) =
     ((seq = [] \<and> e = ErrEmptySequence)
      \<or> (e = ErrIncompleteUTF8 \<and> seq \<noteq> []
          \<and> (\<exists>suffix. suffix \<noteq> [] \<and> validMultiByte (seq @ suffix))))"
    using Parse_error_cases [of p now seq e] A by blast
  show ?thesis using B Parse_unknown_or_entry [of now seq] by blast
qed

text \<open>
  The witness: E6 97 is a proper prefix of E6 97 A5, and ESC [ Z Z is escape-shaped and
  unknown.
\<close>

theorem Parse_errors_only_empty_or_incomplete_witness:
  "validMultiByte ([0xE6, 0x97] @ [0xA5])
   \<and> Parse NewSequenceParser 0 [0xE6, 0x97] = Inl ErrIncompleteUTF8
   \<and> Parse NewSequenceParser 0 [] = Inl ErrEmptySequence
   \<and> Parse NewSequenceParser 0 [0x1b, 0x5B, 0x5A, 0x5A] =
        Inr \<lparr>Key = KeyUnknown, Rune = 0, Modifiers = 0, Timestamp = 0, Pressed = True,
             Repeat = False\<rparr>
   \<and> ([0x1b, 0x5B, 0x5A, 0x5A], KeyUnknown, 0) \<notin> set trieSequences"
proof -
  have v: "validMultiByte ([0xE6, 0x97] @ [0xA5])"
    by (simp add: validMultiByte_def DecodeRune_def first_def acceptRanges_def locb_def
          hicb_def Let_def)
  have i: "Parse NewSequenceParser 0 [0xE6, 0x97] = Inl ErrIncompleteUTF8"
    using Parse_errors_only_empty_or_incomplete
            [of NewSequenceParser 0 "[0xE6, 0x97]" ErrIncompleteUTF8] v
    by blast
  have e: "Parse NewSequenceParser 0 [] = Inl ErrEmptySequence"
    using Parse_errors_only_empty_or_incomplete [of NewSequenceParser 0 "[]" ErrEmptySequence]
    by blast
  have u: "Parse NewSequenceParser 0 [0x1b, 0x5B, 0x5A, 0x5A] =
        Inr \<lparr>Key = KeyUnknown, Rune = 0, Modifiers = 0, Timestamp = 0, Pressed = True,
             Repeat = False\<rparr>"
    by (simp add: Parse_def parseMulti_def root_NewSequenceParser KeyUnknown_def)
  have n: "([0x1b, 0x5B, 0x5A, 0x5A], KeyUnknown, 0) \<notin> set trieSequences"
    by (simp add: trieSequences_def Key_defs)
  show ?thesis using v i e u n by simp
qed

section \<open>The lifecycle: Start, Stop, Poll, Next\<close>

lemma Init_initialized: "initialized (snd (Init b)) = (initialized b \<or> fst (Init b) = None)"
  by (simp add: Init_def Let_def)

lemma New_consistent: "consistent (New t)"
  by (simp add: consistent_def New_def newBackend_def)

lemma Start_consistent: "consistent s \<Longrightarrow> consistent (snd (Start s))"
  using Init_initialized [of "backend s"]
  by (auto simp add: consistent_def Start_def split: prod.splits option.splits)

lemma Stop_consistent: "consistent s \<Longrightarrow> consistent (stopState (Stop s))"
  by (auto simp add: consistent_def Stop_def stopWait_def stopCleanup_def Let_def)

lemma stopResume_consistent:
  "consistent s \<Longrightarrow> s' \<in> set (stopResume s) \<Longrightarrow> consistent s'"
  by (auto simp add: consistent_def stopResume_def stopCleanup_def Let_def split: if_splits)

lemma updateKeyState_consistent: "consistent (updateKeyState s e) = consistent s"
  by (simp add: consistent_def updateKeyState_def)

lemma Poll_states:
  "out \<in> set (Poll s) \<Longrightarrow>
   snd out = s
   \<or> (events s \<noteq> [] \<and> snd out = updateKeyState (s\<lparr>events := tl (events s)\<rparr>) (hd (events s)))"
  by (cases "events s = []") (auto simp add: Poll_def split: if_splits)

lemma Poll_consistent:
  assumes c: "consistent s" and m: "out \<in> set (Poll s)"
  shows "consistent (snd out)"
proof (cases "snd out = s")
  case True
  then show ?thesis using c by simp
next
  case False
  then have ne: "events s \<noteq> []"
    and o: "snd out = updateKeyState (s\<lparr>events := tl (events s)\<rparr>) (hd (events s))"
    using Poll_states [OF m] by simp_all
  have nc: "\<not> eventsClosed s" using c ne by (simp add: consistent_def)
  have "consistent (s\<lparr>events := tl (events s)\<rparr>)"
    using c nc by (simp add: consistent_def)
  then show ?thesis using o by (simp add: updateKeyState_consistent)
qed

lemma Next_consistent: "consistent s \<Longrightarrow> consistent (snd (Next s))"
proof (cases "events s = []")
  case True
  assume "consistent s"
  then show ?thesis using True by (simp add: Next_def updateKeyState_consistent)
next
  case False
  assume c: "consistent s"
  then have nc: "\<not> eventsClosed s" using False by (simp add: consistent_def)
  have "consistent (s\<lparr>events := tl (events s)\<rparr>)"
    using c nc by (simp add: consistent_def)
  then show ?thesis using False by (simp add: Next_def updateKeyState_consistent)
qed

text \<open>From the head of the loop, for a goroutine that is alive and not blocked.\<close>

lemma loopHead_consistent:
  assumes c: "consistent s" and a: "wg s \<noteq> 0" "sending s = None" "reading s = None"
    and m: "s' \<in> set (loopHead k now s)"
  shows "consistent s'"
proof (cases "s' = snd (captureLoop k now s)")
  case True
  note fr = captureLoop_frame [of k now s]
  show ?thesis
  proof (cases "doneClosed s")
    case True2: True
    then show ?thesis using True c a
      by (auto simp add: captureLoop_done wgDone_def consistent_def)
  next
    case False
    then have nc: "\<not> eventsClosed s" using c by (auto simp add: consistent_def)
    show ?thesis
      using True c a fr nc False captureLoop_ends [of k now s]
      by (auto simp add: consistent_def)
  qed
next
  case False
  then have "\<not> doneClosed s" and "s' = s\<lparr>reading := Some k\<rparr>"
    using m by (auto simp add: loopHead_def split: if_splits)
  then show ?thesis using c a by (auto simp add: consistent_def)
qed

lemma afterRead_consistent:
  assumes c: "consistent s" and a: "wg s \<noteq> 0" "reading s = Some k"
    and m: "s' \<in> set (afterRead k now (s\<lparr>reading := None\<rparr>))"
  shows "consistent s'"
proof -
  obtain r b' where re: "ReadEvent now (backend s) = (r, b')"
    by fastforce
  have ini: "initialized b' = initialized (backend s)"
    using ReadEvent_initialized [of now "backend s"] re by simp
  have sn: "sending s = None" and nc: "\<not> eventsClosed s"
    using c a by (auto simp add: consistent_def)
  define s1 where "s1 = s\<lparr>reading := None, backend := b'\<rparr>"
  have base: "consistent s1"
    using c a ini nc by (auto simp add: consistent_def s1_def)
  have f1: "wg s1 \<noteq> 0" "sending s1 = None" "reading s1 = None"
    using a sn by (simp_all add: s1_def)
  have base2: "consistent (s1\<lparr>events := events s @ [e]\<rparr>)" for e
    using c a ini nc by (auto simp add: consistent_def s1_def)
  have f2: "wg (s1\<lparr>events := events s @ [e]\<rparr>) \<noteq> 0"
    "sending (s1\<lparr>events := events s @ [e]\<rparr>) = None"
    "reading (s1\<lparr>events := events s @ [e]\<rparr>) = None" for e
    using a sn by (simp_all add: s1_def)
  have gone: "consistent (wgDone s1)"
    using base f1 by (auto simp add: consistent_def wgDone_def)
  show ?thesis
  proof (cases r)
    case (Inl err)
    show ?thesis
    proof (cases "err = ErrEOF \<or> maxConsecutiveErrors \<le> k + 1 \<or> doneClosed s")
      case True
      then have "s' = wgDone s1"
        using m re Inl by (auto simp add: afterRead_def s1_def split: if_splits)
      then show ?thesis using gone by simp
    next
      case False
      then have "s' \<in> set (loopHead (k + 1) (Suc now) s1)"
        using m re Inl by (auto simp add: afterRead_def s1_def split: if_splits)
      then show ?thesis using loopHead_consistent [OF base f1] by simp
    qed
  next
    case (Inr ev)
    from m re Inr consider
        (go) "s' \<in> set (loopHead 0 (Suc now) (s1\<lparr>events := events s @ [ev]\<rparr>))"
      | (block) "s' = s1\<lparr>sending := Some ev\<rparr>"
      | (leave) "s' = wgDone s1"
      by (auto simp add: afterRead_def s1_def split: if_splits)
    then show ?thesis
    proof cases
      case go
      then show ?thesis using loopHead_consistent [OF base2 f2] by simp
    next
      case block
      then show ?thesis using base f1 nc by (auto simp add: consistent_def s1_def)
    next
      case leave
      then show ?thesis using gone by simp
    qed
  qed
qed

lemma captureRun_consistent:
  assumes c: "consistent s" and m: "s' \<in> set (captureRun now s)"
  shows "consistent s'"
proof -
  have w: "wg s \<noteq> 0" using m by (auto simp add: captureRun_def split: if_splits)
  show ?thesis
  proof (cases "reading s")
    case (Some k)
    then have "s' \<in> set (afterRead k now (s\<lparr>reading := None\<rparr>))"
      using m w by (simp add: captureRun_def)
    then show ?thesis using afterRead_consistent [OF c w Some] by simp
  next
    case None
    show ?thesis
    proof (cases "sending s")
      case N2: None
      then have "s' \<in> set (loopHead 0 now s)"
        using m w None by (simp add: captureRun_def)
      then show ?thesis using loopHead_consistent [OF c w N2 None] by simp
    next
      case (Some ev)
      have nc: "\<not> eventsClosed s" using c Some by (auto simp add: consistent_def)
      define s1 where "s1 = s\<lparr>events := events s @ [ev], sending := None\<rparr>"
      have c1: "consistent s1" using c nc w by (auto simp add: consistent_def s1_def)
      have f1: "wg s1 \<noteq> 0" "sending s1 = None" "reading s1 = None"
        using w None by (simp_all add: s1_def)
      from m w None Some consider
          (go) "s' \<in> set (loopHead 0 now s1)"
        | (leave) "s' = wgDone (s\<lparr>sending := None\<rparr>)"
        by (auto simp add: captureRun_def s1_def split: if_splits)
      then show ?thesis
      proof cases
        case go
        then show ?thesis using loopHead_consistent [OF c1 f1] by simp
      next
        case leave
        then show ?thesis using c None nc by (auto simp add: consistent_def wgDone_def)
      qed
    qed
  qed
qed

lemma step_consistent: "consistent s \<Longrightarrow> s' \<in> set (step c s) \<Longrightarrow> consistent s'"
proof (cases c)
  case CallStart
  assume "consistent s" "s' \<in> set (step c s)"
  then show ?thesis using CallStart Start_consistent [of s] by simp
next
  case CallStop
  assume "consistent s" "s' \<in> set (step c s)"
  then show ?thesis using CallStop Stop_consistent [of s] by simp
next
  case CallPoll
  assume "consistent s" "s' \<in> set (step c s)"
  then show ?thesis using CallPoll Poll_consistent [of s] by auto
next
  case CallNext
  assume "consistent s" "s' \<in> set (step c s)"
  then show ?thesis using CallNext Next_consistent [of s] by simp
next
  case (CallIsPressed k)
  assume "consistent s" "s' \<in> set (step c s)"
  then show ?thesis using CallIsPressed by simp
next
  case (Capture now)
  assume "consistent s" "s' \<in> set (step c s)"
  then show ?thesis using Capture captureRun_consistent [of s s' now] by simp
next
  case StopGoesOn
  assume "consistent s" "s' \<in> set (step c s)"
  then show ?thesis using StopGoesOn stopResume_consistent [of s s'] by simp
qed

lemma runs_consistent: "consistent s \<Longrightarrow> s' \<in> set (runs cs s) \<Longrightarrow> consistent s'"
proof (induction cs arbitrary: s)
  case Nil
  then show ?case by simp
next
  case (Cons c cs)
  from Cons.prems(2) obtain s1 where s1: "s1 \<in> set (step c s)" and s': "s' \<in> set (runs cs s1)"
    by auto
  have "consistent s1" using step_consistent [OF Cons.prems(1) s1] .
  then show ?case using Cons.IH s' by blast
qed

lemma reachable_consistent: "s' \<in> set (runs cs (New t)) \<Longrightarrow> consistent s'"
  using New_consistent runs_consistent by blast

lemma Next_closed:
  "consistent s \<Longrightarrow> eventsClosed s \<Longrightarrow>
   Next s = (Some zeroEvent, s\<lparr>keyState := (keyState s)(KeyUnknown \<mapsto> False)\<rparr>)"
  by (simp add: consistent_def Next_def updateKeyState_def zeroEvent_def KeyUnknown_def)

lemma Next_nil:
  "consistent s \<Longrightarrow> fst (Next s) = None \<Longrightarrow>
   events s = [] \<and> \<not> eventsClosed s \<and> (started s \<or> \<not> initialized (backend s))"
  by (auto simp add: consistent_def Next_def split: if_splits)

lemma Stop_closes:
  "Stop s = Returned s' \<Longrightarrow>
   eventsClosed s' = (eventsClosed s \<or> (started s \<and> \<not> stopOnce s))"
  by (auto simp add: Stop_def stopWait_def stopCleanup_def Let_def split: if_splits)

lemma stopResume_closes: "s' \<in> set (stopResume s) \<Longrightarrow> eventsClosed s'"
  by (auto simp add: stopResume_def stopCleanup_def Let_def split: if_splits)
section \<open>Key state, restart and failures\<close>

lemma sessA0_eq:
  "sessA0 = \<lparr>backend = \<lparr>originalState = Some cooked, parser = NewSequenceParser,
                 initialized = True, pendingBuf = [],
                 tty = \<lparr>termState = cooked\<lparr>icanon := False, echo := False, isig := False,
                          iexten := False, inpck := False, istrip := False, icrnl := False,
                          opost := False, csize := 8, vmin := 1, vtime := 0\<rparr>,
                        getFails = False, setFails = False, reads = [Data [0x61]]\<rparr>\<rparr>,
               events = [], eventsClosed = False, doneClosed = False, wg = 1,
               keyState = Map.empty, started = True, stopping = False, stopOnce = False,
               sending = None, reading = None, stopWaiting = False\<rparr>"
  by (simp add: sessA0_def Start_def New_def Init_def newBackend_def terminalWith_def Let_def)

lemma ReadEvent_a:
  "ReadEvent now \<lparr>originalState = os, parser = NewSequenceParser,
                 initialized = i, pendingBuf = [],
                 tty = \<lparr>termState = ts, getFails = gf, setFails = sf, reads = [Data [0x61]]\<rparr>\<rparr>
   = (Inr \<lparr>Key = KeyA, Rune = 0x61, Modifiers = 0, Timestamp = now, Pressed = True, Repeat = False\<rparr>,
      \<lparr>originalState = os, parser = NewSequenceParser,
                 initialized = i, pendingBuf = [],
                 tty = \<lparr>termState = ts, getFails = gf, setFails = sf, reads = []\<rparr>\<rparr>)"
  by (simp add: ReadEvent_def fileRead_def utf8More_def escMore_def retryIncomplete_def
        Parse_def parseSingle_def runeToKey_def word_sle_eq KeyA_def)

lemma ReadEvent_eof:
  "ReadEvent now \<lparr>originalState = os, parser = p,
                 initialized = i, pendingBuf = [],
                 tty = \<lparr>termState = ts, getFails = gf, setFails = sf, reads = []\<rparr>\<rparr>
   = (Inl ErrEOF,
      \<lparr>originalState = os, parser = p,
                 initialized = i, pendingBuf = [],
                 tty = \<lparr>termState = ts, getFails = gf, setFails = sf, reads = []\<rparr>\<rparr>)"
  by (simp add: ReadEvent_def fileRead_def)

lemma sessA1_eq:
  "sessA1 = sessA0\<lparr>backend := (backend sessA0)\<lparr>tty := (tty (backend sessA0))\<lparr>reads := []\<rparr>\<rparr>,
       events := [\<lparr>Key = KeyA, Rune = 0x61, Modifiers = 0, Timestamp = 0, Pressed = True, Repeat = False\<rparr>],
       wg := 0\<rparr>"
  unfolding sessA1_def sessA0_eq
  apply (subst captureLoop.simps)
  apply (simp add: ReadEvent_a eventsCap_def)
  apply (subst captureLoop.simps)
  apply (simp add: ReadEvent_eof wgDone_def)
  done


lemma sessA1_fields:
  "events sessA1 = [evA]" "keyState sessA1 = Map.empty" "doneClosed sessA1 = False"
  "eventsClosed sessA1 = False" "started sessA1" "stopOnce sessA1 = False"
  "wg sessA1 = 0" "stopWaiting sessA1 = False"
  by (simp_all add: sessA1_eq sessA0_eq evA_def)


lemma loopHead_keyState: "s' \<in> set (loopHead k now s) \<Longrightarrow> keyState s' = keyState s"
  using captureLoop_frame [of k now s] by (auto simp add: loopHead_def split: if_splits)

lemma afterRead_keyState: "s' \<in> set (afterRead k now s) \<Longrightarrow> keyState s' = keyState s"
proof -
  assume m: "s' \<in> set (afterRead k now s)"
  obtain r b' where re: "ReadEvent now (backend s) = (r, b')"
    by fastforce
  show ?thesis
  proof (cases r)
    case (Inl err)
    then show ?thesis
      using m re loopHead_keyState [of s' "k + 1" "Suc now" "s\<lparr>backend := b'\<rparr>"]
      by (auto simp add: afterRead_def wgDone_def split: if_splits)
  next
    case (Inr ev)
    then show ?thesis
      using m re
        loopHead_keyState [of s' 0 "Suc now" "s\<lparr>backend := b', events := events s @ [ev]\<rparr>"]
      by (auto simp add: afterRead_def wgDone_def split: if_splits)
  qed
qed

lemma captureRun_keyState: "s' \<in> set (captureRun now s) \<Longrightarrow> keyState s' = keyState s"
proof -
  assume m: "s' \<in> set (captureRun now s)"
  show ?thesis
  proof (cases "reading s")
    case (Some k)
    then show ?thesis
      using m afterRead_keyState [of s' k now "s\<lparr>reading := None\<rparr>"]
      by (auto simp add: captureRun_def split: if_splits)
  next
    case None
    show ?thesis
    proof (cases "sending s")
      case N2: None
      then show ?thesis
        using m None loopHead_keyState [of s' 0 now s]
        by (auto simp add: captureRun_def split: if_splits)
    next
      case (Some ev)
      then show ?thesis
        using m None
          loopHead_keyState [of s' 0 now "s\<lparr>events := events s @ [ev], sending := None\<rparr>"]
        by (auto simp add: captureRun_def wgDone_def split: if_splits)
    qed
  qed
qed

text \<open>
  C7. The claim wants the key-state map updated by the capture loop, before the event
  is pushed. \<^verbatim>\<open>captureLoop\<close> never calls \<^verbatim>\<open>updateKeyState\<close>: no run of the loop
  and no scheduling step of the capture goroutine changes the map. On a terminal that
  delivers the byte \<^verbatim>\<open>'a'\<close>, after \<^verbatim>\<open>New\<close>, \<^verbatim>\<open>Start\<close> and the run of the loop,
  the pressed event for the key A is in the queue, where any consumer can take it, and
  the map has no entry for that key: \<^verbatim>\<open>IsPressed(KeyA)\<close> is false.
\<close>

theorem captureLoop_leaves_keyState:
  "keyState (snd (captureLoop c now s)) = keyState s
   \<and> list_all (\<lambda>s'. keyState s' = keyState s) (captureRun now s)
   \<and> events sessA1 = [evA] \<and> Key evA = KeyA \<and> Pressed evA
   \<and> keyState sessA1 KeyA = None \<and> \<not> IsPressed sessA1 KeyA"
proof -
  have A: "keyState (snd (captureLoop c now s)) = keyState s"
    using captureLoop_frame [of c now s] by simp
  have B: "list_all (\<lambda>s'. keyState s' = keyState s) (captureRun now s)"
    using captureRun_keyState [of _ now s] by (simp add: list_all_iff)
  have C: "events sessA1 = [evA] \<and> keyState sessA1 KeyA = None \<and> \<not> IsPressed sessA1 KeyA"
    by (simp add: sessA1_fields IsPressed_def)
  have D: "Key evA = KeyA \<and> Pressed evA"
    by (simp add: evA_def)
  show ?thesis using A B C D by simp
qed

text \<open>
  The only writers of the map are the consumer's calls: \<^verbatim>\<open>Poll\<close> and \<^verbatim>\<open>Next\<close>
  record the event they take from the queue.
\<close>

lemma Poll_records:
  "((e, ok), s') \<in> set (Poll s) \<Longrightarrow> ok \<Longrightarrow> keyState s' (Key e) = Some (Pressed e)"
  by (auto simp add: Poll_def updateKeyState_def split: if_splits)

lemma Next_records:
  "Next s = (Some e, s') \<Longrightarrow> keyState s' (Key e) = Some (Pressed e)"
  by (auto simp add: Next_def updateKeyState_def split: if_splits)

lemma Poll_sessA1: "Poll sessA1 = [((evA, True), sessA2)]"
  by (simp add: sessA2_def) (simp add: Poll_def sessA1_fields)

lemma sessA2_fields:
  "keyState sessA2 KeyA = Some True" "started sessA2" "stopOnce sessA2 = False"
  "wg sessA2 = 0" "stopWaiting sessA2 = False" "events sessA2 = []"
  "initialized (backend sessA2)"
  using Poll_sessA1
  by (simp_all add: sessA2_def Poll_def sessA1_fields updateKeyState_def evA_def)
     (simp_all add: sessA1_eq sessA0_eq)

lemma Start_keyState: "keyState (snd (Start s)) = keyState s"
  by (simp add: Start_def split: prod.splits option.splits)

lemma Stop_keyState: "keyState (stopState (Stop s)) = keyState s"
  by (simp add: Stop_def stopWait_def stopCleanup_def Let_def)

text \<open>
  The \<^verbatim>\<open>Stop\<close> that fires the Once on a started instance. With the capture goroutine
  gone it returns: the instance is stopped, \<^verbatim>\<open>Restore\<close> has run, both channels are
  closed and the queue is empty. With the goroutine alive it blocks in
  \<^verbatim>\<open>in.wg.Wait()\<close>, \<^verbatim>\<open>done\<close> closed and nothing else done, and it cannot go on
  before the goroutine has returned. A goroutine inside \<^verbatim>\<open>ReadEvent\<close> takes its
  next step only with the device's answer.
\<close>

lemma Stop_returns:
  "started s \<Longrightarrow> \<not> stopOnce s \<Longrightarrow> wg s = 0 \<Longrightarrow>
   Stop s = Returned (stopCleanup (s\<lparr>stopOnce := True, stopping := True, doneClosed := True,
                                     stopWaiting := False\<rparr>))"
  by (simp add: Stop_def stopWait_def Let_def)

lemma stopCleanup_fields:
  "\<not> started (stopCleanup s)" "eventsClosed (stopCleanup s)" "events (stopCleanup s) = []"
  "backend (stopCleanup s) = snd (Restore (backend s))"
  "doneClosed (stopCleanup s) = doneClosed s" "stopOnce (stopCleanup s) = stopOnce s"
  "keyState (stopCleanup s) = keyState s" "wg (stopCleanup s) = wg s"
  "stopWaiting (stopCleanup s) = stopWaiting s"
  by (simp_all add: stopCleanup_def Let_def)

lemma Stop_waits:
  "started s \<Longrightarrow> \<not> stopOnce s \<Longrightarrow> wg s \<noteq> 0 \<Longrightarrow>
   Stop s = Waiting (s\<lparr>stopOnce := True, stopping := True, doneClosed := True,
                         stopWaiting := True\<rparr>)
   \<and> stopResume (stopState (Stop s)) = []
   \<and> Stop (stopState (Stop s)) = Waiting (stopState (Stop s))"
  by (simp add: Stop_def stopWait_def stopResume_def Let_def)

lemma captureRun_reading:
  "wg s \<noteq> 0 \<Longrightarrow> reading s = Some k \<Longrightarrow>
   captureRun now s = afterRead k now (s\<lparr>reading := None\<rparr>)"
  by (simp add: captureRun_def)

text \<open>
  The session in which the byte \<^verbatim>\<open>'a'\<close> arrives only after \<^verbatim>\<open>Stop\<close> was called.
  \<^verbatim>\<open>Stop\<close> blocks with the read still pending; \<^verbatim>\<open>Poll\<close> callers are released by
  the closed \<^verbatim>\<open>done\<close>. Only the device's answer lets the goroutine return: the
  read is used up, whichever case its send \<^verbatim>\<open>select\<close> takes. Then \<^verbatim>\<open>Stop\<close>
  goes on to the stopped state.
\<close>

lemma sessP0_fields:
  "started sessP0" "\<not> stopOnce sessP0" "wg sessP0 = 1" "reading sessP0 = Some 0"
  "reads (tty (backend sessP0)) = [Data [0x61]]"
  by (simp_all add: sessP0_def sessA0_eq)

lemma sessP1_eq:
  "sessP1 = sessA0\<lparr>reading := Some 0, stopOnce := True, stopping := True, doneClosed := True,
                     stopWaiting := True\<rparr>"
  using Stop_waits [of sessP0] by (simp add: sessP1_def sessP0_fields) (simp add: sessP0_def)

lemma captureRun_sessP1:
  "captureRun 1 sessP1
   = [wgDone (sessP1\<lparr>reading := None,
                      backend := (backend sessA0)\<lparr>tty := (tty (backend sessA0))\<lparr>reads := []\<rparr>\<rparr>,
                      events := [evA\<lparr>Timestamp := 1\<rparr>]\<rparr>),
      wgDone (sessP1\<lparr>reading := None,
                      backend := (backend sessA0)\<lparr>tty := (tty (backend sessA0))\<lparr>reads := []\<rparr>\<rparr>\<rparr>)]"
proof -
  have re: "ReadEvent 1 (backend sessA0)
      = (Inr (evA\<lparr>Timestamp := 1\<rparr>),
         (backend sessA0)\<lparr>tty := (tty (backend sessA0))\<lparr>reads := []\<rparr>\<rparr>)"
    by (simp add: sessA0_eq ReadEvent_a evA_def)
  have f: "wg sessP1 = 1" "reading sessP1 = Some 0" "doneClosed sessP1" "events sessP1 = []"
    "backend sessP1 = backend sessA0"
    by (simp_all add: sessP1_eq sessA0_eq)
  show ?thesis
    using re f
    by (simp add: captureRun_def afterRead_def loopHead_def captureLoop_done eventsCap_def)
qed

lemma Stop_waits_for_the_read:
  "sessP0 \<in> set (captureRun 0 sessA0)
   \<and> Stop sessP0 = Waiting sessP1
   \<and> reads (tty (backend sessP1)) = [Data [0x61]]
   \<and> stopResume sessP1 = []
   \<and> started sessP1 \<and> \<not> eventsClosed sessP1
   \<and> Poll sessP1 = [((zeroEvent, False), sessP1)]
   \<and> (\<forall>s' \<in> set (captureRun 1 sessP1).
         wg s' = 0 \<and> reads (tty (backend s')) = [] \<and> stopResume s' = [sessP3])
   \<and> \<not> started sessP3 \<and> eventsClosed sessP3 \<and> events sessP3 = []
   \<and> termState (tty (backend sessP3)) = cooked"
proof -
  have a: "sessP0 \<in> set (captureRun 0 sessA0)"
    by (simp add: captureRun_def loopHead_def sessP0_def sessA0_eq)
  have b: "Stop sessP0 = Waiting sessP1"
    using Stop_waits [of sessP0] by (simp add: sessP1_def sessP0_fields)
  have c: "reads (tty (backend sessP1)) = [Data [0x61]]" "stopResume sessP1 = []"
    "started sessP1" "\<not> eventsClosed sessP1"
    "Poll sessP1 = [((zeroEvent, False), sessP1)]"
    by (simp_all add: sessP1_eq sessA0_eq stopResume_def Poll_def)
  have p2: "sessP2 = wgDone (sessP1\<lparr>reading := None,
                      backend := (backend sessA0)\<lparr>tty := (tty (backend sessA0))\<lparr>reads := []\<rparr>\<rparr>,
                      events := [evA\<lparr>Timestamp := 1\<rparr>]\<rparr>)"
    by (simp only: sessP2_def captureRun_sessP1 list.sel)
  have p3: "sessP3 = stopCleanup (sessP2\<lparr>stopWaiting := False\<rparr>)"
    by (simp add: sessP3_def stopResume_def p2 wgDone_def sessP1_eq sessA0_eq)
  have d: "\<forall>s' \<in> set (captureRun 1 sessP1).
         wg s' = 0 \<and> reads (tty (backend s')) = [] \<and> stopResume s' = [sessP3]"
    unfolding captureRun_sessP1
    by (simp add: p3 p2 wgDone_def stopResume_def stopCleanup_def Let_def sessP1_eq sessA0_eq)
  have e: "\<not> started sessP3" "eventsClosed sessP3" "events sessP3 = []"
    by (simp_all add: p3 stopCleanup_fields)
  have g: "termState (tty (backend sessP3)) = cooked"
    by (simp add: p3 stopCleanup_fields p2 wgDone_def Restore_def sessA0_eq)
  show ?thesis using a b c d e g by simp
qed

lemma stopResume_sessP2: "stopResume sessP2 = [sessP3]"
proof -
  have "sessP2 \<in> set (captureRun 1 sessP1)"
    unfolding sessP2_def captureRun_sessP1 by simp
  then show ?thesis using Stop_waits_for_the_read by blast
qed

lemma Restore_after_Init:
  "fst (Init b) = None \<Longrightarrow> \<not> initialized b \<Longrightarrow> \<not> setFails (tty b) \<Longrightarrow>
   termState (tty (snd (Restore (snd (Init b))))) = termState (tty b)"
  by (simp add: Init_def Restore_def Let_def split: if_splits)

lemma Stop_sessA2: "Stop sessA2 = Returned sessA3"
  using Stop_returns [of sessA2] by (simp add: sessA3_def sessA2_fields)

lemma sessA3_fields:
  "keyState sessA3 KeyA = Some True" "started sessA3 = False"
  "initialized (backend sessA3)" "eventsClosed sessA3" "doneClosed sessA3"
  "events sessA3 = []" "sending sessA3 = None" "reading sessA3 = None" "wg sessA3 = 0"
  using Stop_keyState [of sessA2] Stop_returns [of sessA2]
  by (simp_all add: sessA3_def sessA2_fields stopCleanup_fields)
     (simp_all add: stopCleanup_def Let_def Restore_def sessA2_def Poll_def sessA1_fields
        updateKeyState_def sessA1_eq sessA0_eq split: option.splits)

lemma sessA4_fields:
  "started sessA4" "doneClosed sessA4" "eventsClosed sessA4" "events sessA4 = []"
  "wg sessA4 = 1" "sending sessA4 = None" "reading sessA4 = None"
  "keyState sessA4 = keyState sessA3"
  by (simp_all add: sessA4_def Start_def Init_def sessA3_fields)

text \<open>
  C8. The claim wants the key-state map empty after every successful \<^verbatim>\<open>Start\<close>,
  a restart included. \<^verbatim>\<open>Start\<close> never touches the map. In the session \<^verbatim>\<open>New\<close>,
  \<^verbatim>\<open>Start\<close>, the event for the key A taken by \<^verbatim>\<open>Poll\<close>, \<^verbatim>\<open>Stop\<close>,
  \<^verbatim>\<open>Start\<close>, the \<^verbatim>\<open>Stop\<close> returns, the second \<^verbatim>\<open>Start\<close> returns nil and
  sets \<^verbatim>\<open>started\<close>, and \<^verbatim>\<open>IsPressed(KeyA)\<close> is still true. Nothing else is
  made new either: \<^verbatim>\<open>done\<close> and \<^verbatim>\<open>events\<close> stay closed and \<^verbatim>\<open>Init\<close> does
  nothing (the terminal stays as \<^verbatim>\<open>Restore\<close> left it), so the new capture goroutine
  returns at its first \<^verbatim>\<open>select\<close> without a read and \<^verbatim>\<open>Poll\<close> reports the
  shutdown at once.
\<close>

theorem restart_keeps_keyState:
  "Stop sessA2 = Returned sessA3 \<and> \<not> started sessA3
   \<and> fst (Start sessA3) = None \<and> sessA4 = snd (Start sessA3) \<and> started sessA4
   \<and> IsPressed sessA2 KeyA \<and> IsPressed sessA4 KeyA
   \<and> keyState (snd (Start s)) = keyState s
   \<and> doneClosed sessA4 \<and> eventsClosed sessA4
   \<and> termState (tty (backend sessA4)) = cooked
   \<and> captureRun now sessA4 = [wgDone sessA4]
   \<and> Poll sessA4 = [((zeroEvent, False), sessA4), ((zeroEvent, False), sessA4)]"
proof -
  have A: "fst (Start sessA3) = None"
    by (simp add: Start_def Init_def sessA3_fields)
  have B: "IsPressed sessA2 KeyA \<and> IsPressed sessA4 KeyA"
    by (simp add: IsPressed_def sessA4_fields sessA3_fields sessA2_fields)
  have C: "captureRun now sessA4 = [wgDone sessA4]"
    by (simp add: captureRun_def loopHead_def captureLoop_done sessA4_fields)
  have D: "Poll sessA4 = [((zeroEvent, False), sessA4), ((zeroEvent, False), sessA4)]"
    by (simp add: Poll_def sessA4_fields)
  have E: "termState (tty (backend sessA4)) = cooked"
    using Stop_returns [of sessA2]
    by (simp add: sessA4_def Start_def Init_def sessA3_fields)
       (simp add: sessA3_def sessA2_fields stopCleanup_def Let_def Restore_def sessA2_def
          Poll_def sessA1_fields updateKeyState_def sessA1_eq sessA0_eq)
  show ?thesis
    using A B C D E Stop_sessA2 Start_keyState [of s]
    by (simp add: sessA4_fields sessA3_fields) (simp add: sessA4_def)
qed

text \<open>The first \<^verbatim>\<open>Stop\<close> on a never-started instance only fires the \<^verbatim>\<open>sync.Once\<close>.\<close>

lemma sessB1_eq: "sessB1 = (New (terminalWith []))\<lparr>stopOnce := True\<rparr>"
  by (simp add: sessB1_def Stop_def New_def Let_def)

text \<open>
  C9. The claim wants every \<^verbatim>\<open>Stop\<close> after a successful \<^verbatim>\<open>Start\<close> to leave the
  system stopped and the terminal restored. The test of \<^verbatim>\<open>started\<close> sits inside
  \<^verbatim>\<open>stopOnce.Do\<close>: a \<^verbatim>\<open>Stop\<close> before \<^verbatim>\<open>Start\<close> uses the Once up. In the session
  \<^verbatim>\<open>New\<close>, \<^verbatim>\<open>Stop\<close>, \<^verbatim>\<open>Start\<close>, \<^verbatim>\<open>Stop\<close> the \<^verbatim>\<open>Start\<close> succeeds and the last
  \<^verbatim>\<open>Stop\<close> changes nothing: the instance is still started, neither channel is closed,
  the terminal is still in raw mode (the saved state is not written back) and a
  \<^verbatim>\<open>Poll\<close> blocks. Both \<^verbatim>\<open>Stop\<close> calls return.
\<close>

theorem Stop_before_Start_disables_Stop:
  "fst (Start sessB1) = None \<and> started sessB2
   \<and> sessB3 = sessB2
   \<and> started sessB3 \<and> \<not> doneClosed sessB3 \<and> \<not> eventsClosed sessB3
   \<and> originalState (backend sessB3) = Some cooked
   \<and> \<not> icanon (termState (tty (backend sessB3)))
   \<and> termState (tty (backend sessB3)) \<noteq> cooked
   \<and> Poll sessB3 = []
   \<and> Stop (New (terminalWith [])) = Returned sessB1
   \<and> Stop sessB2 = Returned sessB3"
  by (simp add: sessB3_def sessB2_def sessB1_eq Stop_def Start_def New_def Init_def
        newBackend_def terminalWith_def Let_def Poll_def cooked_def)


text \<open>The capture loop under consecutive failures.\<close>

lemma captureLoop_readFails:
  "\<not> doneClosed s \<Longrightarrow> c + Suc n = maxConsecutiveErrors \<Longrightarrow> readFails (Suc n) now (backend s)
   \<Longrightarrow> fst (captureLoop c now s) = ExitTooManyErrors"
proof (induction n arbitrary: c now s)
  case 0
  then show ?case
    by (auto simp add: captureLoop.simps [of c now s] split: prod.splits sum.splits)
next
  case (Suc n)
  obtain r b' where re: "ReadEvent now (backend s) = (r, b')"
    by fastforce
  from Suc.prems(3) re obtain err where r: "r = Inl err" and ne: "err \<noteq> ErrEOF"
    and rf: "readFails (Suc n) (Suc now) b'"
    by (auto split: sum.splits)
  have c: "\<not> maxConsecutiveErrors \<le> c + 1" using Suc.prems(2) by simp
  have "fst (captureLoop (c + 1) (Suc now) (s\<lparr>backend := b'\<rparr>)) = ExitTooManyErrors"
    using Suc.IH [of "s\<lparr>backend := b'\<rparr>" "c + 1" "Suc now"] Suc.prems(1,2) rf by simp
  then show ?case
    using Suc.prems(1) re r ne c by (simp add: captureLoop.simps [of c now s])
qed

lemma captureLoop_success_resets:
  "\<not> doneClosed s \<Longrightarrow> ReadEvent now (backend s) = (Inr e, b') \<Longrightarrow>
   length (events s) < eventsCap \<Longrightarrow>
   captureLoop c now s = captureLoop 0 (Suc now) (s\<lparr>backend := b', events := events s @ [e]\<rparr>)"
  by (simp add: captureLoop.simps [of c now s])

lemma ReadEvent_ReadFail:
  "reads (tty b) = ReadFail k # rest \<Longrightarrow>
   ReadEvent now b = (Inl (ErrIO k), b\<lparr>tty := (tty b)\<lparr>reads := rest\<rparr>\<rparr>)"
  by (simp add: ReadEvent_def fileRead_def)

lemma readFails_replicate:
  "reads (tty b) = replicate n (ReadFail k) @ rest \<Longrightarrow> readFails n now b"
proof (induction n arbitrary: b now)
  case 0
  then show ?case by simp
next
  case (Suc n)
  have r: "reads (tty b) = ReadFail k # (replicate n (ReadFail k) @ rest)"
    using Suc.prems by simp
  show ?case
    using Suc.IH [of "b\<lparr>tty := (tty b)\<lparr>reads := replicate n (ReadFail k) @ rest\<rparr>\<rparr>" "Suc now"]
    by (simp add: ReadEvent_ReadFail [OF r])
qed

text \<open>What the run leaves on a device whose next reads fail: only the reads are used up.\<close>

lemma captureLoop_on_failures:
  "\<not> doneClosed s \<Longrightarrow> c + n = maxConsecutiveErrors \<Longrightarrow> 0 < n \<Longrightarrow>
   reads (tty (backend s)) = replicate n (ReadFail k) @ rest \<Longrightarrow>
   captureLoop c now s
     = (ExitTooManyErrors,
        wgDone (s\<lparr>backend := (backend s)\<lparr>tty := (tty (backend s))\<lparr>reads := rest\<rparr>\<rparr>\<rparr>))"
proof (induction n arbitrary: c now s)
  case 0
  then show ?case by simp
next
  case (Suc n)
  have r: "reads (tty (backend s)) = ReadFail k # (replicate n (ReadFail k) @ rest)"
    using Suc.prems by simp
  note re = ReadEvent_ReadFail [OF r, of now]
  show ?case
  proof (cases "n = 0")
    case True
    then show ?thesis using Suc.prems re
      by (simp add: captureLoop.simps [of c now s])
  next
    case False
    then have c: "\<not> maxConsecutiveErrors \<le> c + 1" using Suc.prems(2) by simp
    define s1 where
      "s1 = s\<lparr>backend := (backend s)\<lparr>tty := (tty (backend s))\<lparr>reads := replicate n (ReadFail k) @ rest\<rparr>\<rparr>\<rparr>"
    have "captureLoop (c + 1) (Suc now) s1
          = (ExitTooManyErrors,
             wgDone (s1\<lparr>backend := (backend s1)\<lparr>tty := (tty (backend s1))\<lparr>reads := rest\<rparr>\<rparr>\<rparr>))"
      using Suc.IH [of s1 "c + 1" "Suc now"] Suc.prems False by (simp add: s1_def)
    then show ?thesis using Suc.prems(1) re c
      by (simp add: captureLoop.simps [of c now s] s1_def)
  qed
qed

lemma sessE0_eq:
  "sessE0 = (New (terminalWith (replicate 10 (ReadFail 5))))
      \<lparr>backend := snd (Init (newBackend (terminalWith (replicate 10 (ReadFail 5))))),
       wg := 1, started := True\<rparr>"
  by (simp add: sessE0_def Start_def New_def Init_def newBackend_def terminalWith_def Let_def)

lemma sessE0_fields:
  "\<not> doneClosed sessE0" "\<not> eventsClosed sessE0" "events sessE0 = []" "started sessE0"
  "\<not> stopOnce sessE0" "wg sessE0 = 1"
  "reads (tty (backend sessE0)) = replicate 10 (ReadFail 5) @ []"
  by (simp_all add: sessE0_def Start_def New_def Init_def newBackend_def terminalWith_def Let_def)

text \<open>
  C6. The claim wants every \<^verbatim>\<open>Poll\<close> after the loop has given up to return the zero
  Event and false. The limit is 10 and a successful read sets the count back to zero
  (\<open>captureLoop_readFails\<close>, \<open>captureLoop_success_resets\<close>), but the loop only
  returns: no run of it closes \<^verbatim>\<open>done\<close> or \<^verbatim>\<open>events\<close>. On a started instance
  whose terminal fails ten reads, the capture goroutine returns after the tenth, the
  instance is still started with both channels open and the queue empty, and
  \<^verbatim>\<open>Poll\<close> has no ready case: it blocks.
\<close>

theorem Poll_blocks_after_ten_failures:
  "maxConsecutiveErrors = 10
   \<and> fst (captureLoop 0 0 sessE0) = ExitTooManyErrors
   \<and> wg sessE0 = 1 \<and> wg sessE1 = 0
   \<and> started sessE1 \<and> \<not> doneClosed sessE1 \<and> \<not> eventsClosed sessE1 \<and> events sessE1 = []
   \<and> Poll sessE1 = []
   \<and> doneClosed (snd (captureLoop c now s)) = doneClosed s
   \<and> eventsClosed (snd (captureLoop c now s)) = eventsClosed s"
proof -
  have cl: "captureLoop 0 0 sessE0
      = (ExitTooManyErrors,
         wgDone (sessE0\<lparr>backend := (backend sessE0)\<lparr>tty := (tty (backend sessE0))\<lparr>reads := []\<rparr>\<rparr>\<rparr>))"
    using captureLoop_on_failures [of sessE0 0 10 5 "[]" 0] sessE0_fields
    by (simp add: maxConsecutiveErrors_def)
  have f: "wg sessE1 = 0 \<and> started sessE1 \<and> \<not> doneClosed sessE1 \<and> \<not> eventsClosed sessE1
           \<and> events sessE1 = []"
    using sessE0_fields by (simp add: sessE1_def cl wgDone_def)
  then have p: "Poll sessE1 = []" by (simp add: Poll_def)
  have g: "doneClosed (snd (captureLoop c now s)) = doneClosed s
           \<and> eventsClosed (snd (captureLoop c now s)) = eventsClosed s"
    using captureLoop_frame [of c now s] by simp
  show ?thesis using cl f p g sessE0_fields(6) by (simp add: maxConsecutiveErrors_def)
qed

section \<open>Next on the closed channel\<close>

lemma loopHead_eventsClosed:
  "s' \<in> set (loopHead k now s) \<Longrightarrow> eventsClosed s' = eventsClosed s"
  using captureLoop_frame [of k now s] by (auto simp add: loopHead_def split: if_splits)

lemma afterRead_eventsClosed:
  "s' \<in> set (afterRead k now s) \<Longrightarrow> eventsClosed s' = eventsClosed s"
proof -
  assume m: "s' \<in> set (afterRead k now s)"
  obtain r b' where re: "ReadEvent now (backend s) = (r, b')"
    by fastforce
  show ?thesis
  proof (cases r)
    case (Inl err)
    then show ?thesis
      using m re loopHead_eventsClosed [of s' "k + 1" "Suc now" "s\<lparr>backend := b'\<rparr>"]
      by (auto simp add: afterRead_def wgDone_def split: if_splits)
  next
    case (Inr ev)
    then show ?thesis
      using m re
        loopHead_eventsClosed [of s' 0 "Suc now" "s\<lparr>backend := b', events := events s @ [ev]\<rparr>"]
      by (auto simp add: afterRead_def wgDone_def split: if_splits)
  qed
qed

lemma captureRun_eventsClosed:
  "s' \<in> set (captureRun now s) \<Longrightarrow> eventsClosed s' = eventsClosed s"
proof -
  assume m: "s' \<in> set (captureRun now s)"
  show ?thesis
  proof (cases "reading s")
    case (Some k)
    then show ?thesis
      using m afterRead_eventsClosed [of s' k now "s\<lparr>reading := None\<rparr>"]
      by (auto simp add: captureRun_def split: if_splits)
  next
    case None
    show ?thesis
    proof (cases "sending s")
      case N2: None
      then show ?thesis
        using m None loopHead_eventsClosed [of s' 0 now s]
        by (auto simp add: captureRun_def split: if_splits)
    next
      case (Some ev)
      then show ?thesis
        using m None
          loopHead_eventsClosed [of s' 0 now "s\<lparr>events := events s @ [ev], sending := None\<rparr>"]
        by (auto simp add: captureRun_def wgDone_def split: if_splits)
    qed
  qed
qed

lemma updateKeyState_eventsClosed: "eventsClosed (updateKeyState s e) = eventsClosed s"
  by (simp add: updateKeyState_def)

lemma Poll_eventsClosed:
  "out \<in> set (Poll s) \<Longrightarrow> eventsClosed (snd out) = eventsClosed s"
  using Poll_states [of out s] by (auto simp add: updateKeyState_eventsClosed)

text \<open>Nothing opens the channel again.\<close>

lemma step_eventsClosed: "eventsClosed s \<Longrightarrow> s' \<in> set (step c s) \<Longrightarrow> eventsClosed s'"
proof (cases c)
  case CallStart
  assume "eventsClosed s" "s' \<in> set (step c s)"
  then show ?thesis using CallStart
    by (auto simp add: Start_def split: prod.splits option.splits)
next
  case CallStop
  assume "eventsClosed s" "s' \<in> set (step c s)"
  then show ?thesis using CallStop
    by (auto simp add: Stop_def stopWait_def stopCleanup_def Let_def)
next
  case CallPoll
  assume "eventsClosed s" "s' \<in> set (step c s)"
  then show ?thesis using CallPoll Poll_eventsClosed [of _ s] by auto
next
  case CallNext
  assume "eventsClosed s" "s' \<in> set (step c s)"
  then show ?thesis using CallNext
    by (auto simp add: Next_def updateKeyState_eventsClosed)
next
  case (CallIsPressed k)
  assume "eventsClosed s" "s' \<in> set (step c s)"
  then show ?thesis using CallIsPressed by simp
next
  case (Capture now)
  assume "eventsClosed s" "s' \<in> set (step c s)"
  then show ?thesis using Capture captureRun_eventsClosed [of s' now s] by simp
next
  case StopGoesOn
  assume "eventsClosed s" "s' \<in> set (step c s)"
  then show ?thesis using StopGoesOn
    by (auto simp add: stopResume_def stopCleanup_def Let_def split: if_splits)
qed

lemma runs_eventsClosed: "eventsClosed s \<Longrightarrow> s' \<in> set (runs cs s) \<Longrightarrow> eventsClosed s'"
proof (induction cs arbitrary: s)
  case Nil
  then show ?case by simp
next
  case (Cons c cs)
  from Cons.prems(2) obtain s1 where s1: "s1 \<in> set (step c s)" and s': "s' \<in> set (runs cs s1)"
    by auto
  have "eventsClosed s1" using step_eventsClosed [OF Cons.prems(1) s1] .
  then show ?case using Cons.IH s' by blast
qed

text \<open>The session of the byte \<^verbatim>\<open>'a'\<close> as a call sequence.\<close>

lemma runs_Cons:
  "s1 \<in> set (step c s) \<Longrightarrow> s' \<in> set (runs cs s1) \<Longrightarrow> s' \<in> set (runs (c # cs) s)"
  by auto

lemma sessA3_reached:
  "sessA3 \<in> set (runs [CallStart, Capture 0, CallPoll, CallStop] (New (terminalWith [Data [0x61]])))"
proof -
  have a: "sessA0 \<in> set (step CallStart (New (terminalWith [Data [0x61]])))"
    by (simp add: sessA0_def)
  have b: "sessA1 \<in> set (step (Capture 0) sessA0)"
    by (simp add: captureRun_def loopHead_def sessA1_def sessA0_eq)
  have c: "sessA2 \<in> set (step CallPoll sessA1)"
    by (simp add: Poll_sessA1)
  have d: "sessA3 \<in> set (step CallStop sessA2)"
    by (simp add: sessA3_def)
  have "sessA3 \<in> set (runs [] sessA3)" by simp
  then have "sessA3 \<in> set (runs [CallStop] sessA2)" using d by (rule runs_Cons [rotated])
  then have "sessA3 \<in> set (runs [CallPoll, CallStop] sessA1)" using c by (rule runs_Cons [rotated])
  then have "sessA3 \<in> set (runs [Capture 0, CallPoll, CallStop] sessA0)"
    using b by (rule runs_Cons [rotated])
  then show ?thesis using a by (rule runs_Cons [rotated])
qed

text \<open>
  C10. The states in which the events channel is closed are the condition, as in the
  claim's parenthesis. In every state an instance made by \<^verbatim>\<open>New\<close> reaches by calls
  and scheduling steps: if \<^verbatim>\<open>events\<close> is closed, \<^verbatim>\<open>Next\<close> returns a pointer to
  the zero Event (Key \<^verbatim>\<open>KeyUnknown\<close>, Rune 0, not pressed), never nil, and writes
  \<^verbatim>\<open>keyState[KeyUnknown] = false\<close>; the channel is then closed in every later
  state, so this holds of every later \<^verbatim>\<open>Next\<close>. \<^verbatim>\<open>Next\<close> returns nil only with
  the queue empty and the channel open, and then the instance is started or was never
  started. The channel is closed by \<^verbatim>\<open>Stop\<close> alone: a \<^verbatim>\<open>Stop\<close> that returns
  leaves it closed exactly when it was closed before or the call found the instance
  started and the Once not fired; a \<^verbatim>\<open>Stop\<close> that had to wait closes it when it
  goes on.
\<close>

theorem Next_on_closed_events:
  "(\<forall>s' \<in> set (runs cs (New t)).
      eventsClosed s' \<longrightarrow>
        Next s' = (Some zeroEvent, s'\<lparr>keyState := (keyState s')(KeyUnknown \<mapsto> False)\<rparr>)
        \<and> (\<forall>s'' \<in> set (runs ds s'). eventsClosed s''))
   \<and> Key zeroEvent = KeyUnknown \<and> Rune zeroEvent = 0 \<and> \<not> Pressed zeroEvent
   \<and> (\<forall>s' \<in> set (runs cs (New t)).
         fst (Next s') = None \<longrightarrow>
           events s' = [] \<and> \<not> eventsClosed s' \<and> (started s' \<or> \<not> initialized (backend s')))
   \<and> (\<forall>s' s''. Stop s' = Returned s'' \<longrightarrow>
         eventsClosed s'' = (eventsClosed s' \<or> (started s' \<and> \<not> stopOnce s')))
   \<and> (\<forall>s' s''. s'' \<in> set (stopResume s') \<longrightarrow> eventsClosed s'')"
proof -
  have A: "\<forall>s' \<in> set (runs cs (New t)).
      eventsClosed s' \<longrightarrow>
        Next s' = (Some zeroEvent, s'\<lparr>keyState := (keyState s')(KeyUnknown \<mapsto> False)\<rparr>)
        \<and> (\<forall>s'' \<in> set (runs ds s'). eventsClosed s'')"
  proof (intro ballI impI conjI)
    fix s'
    assume r: "s' \<in> set (runs cs (New t))" and cl: "eventsClosed s'"
    show "Next s' = (Some zeroEvent, s'\<lparr>keyState := (keyState s')(KeyUnknown \<mapsto> False)\<rparr>)"
      using Next_closed [OF reachable_consistent [OF r] cl] .
  next
    fix s' s''
    assume "eventsClosed s'" and "s'' \<in> set (runs ds s')"
    then show "eventsClosed s''" by (rule runs_eventsClosed)
  qed
  have B: "Key zeroEvent = KeyUnknown \<and> Rune zeroEvent = 0 \<and> \<not> Pressed zeroEvent"
    by (simp add: zeroEvent_def KeyUnknown_def)
  have C: "\<forall>s' \<in> set (runs cs (New t)).
         fst (Next s') = None \<longrightarrow>
           events s' = [] \<and> \<not> eventsClosed s' \<and> (started s' \<or> \<not> initialized (backend s'))"
    using Next_nil reachable_consistent by blast
  have D: "\<forall>s' s''. Stop s' = Returned s'' \<longrightarrow>
         eventsClosed s'' = (eventsClosed s' \<or> (started s' \<and> \<not> stopOnce s'))"
    using Stop_closes by blast
  have E: "\<forall>s' s''. s'' \<in> set (stopResume s') \<longrightarrow> eventsClosed s''"
    using stopResume_closes by blast
  show ?thesis using A B C D E by blast
qed

text \<open>
  The witness: after \<^verbatim>\<open>New\<close>, \<^verbatim>\<open>Start\<close>, the run of the loop, \<^verbatim>\<open>Poll\<close> and
  \<^verbatim>\<open>Stop\<close> on the terminal that delivers \<^verbatim>\<open>'a'\<close>, the channel is closed and
  \<^verbatim>\<open>Next\<close> returns the zero Event, also the next time; on the fresh instance it
  returns nil. The \<^verbatim>\<open>Stop\<close> of that session returns and has closed the channel;
  the \<^verbatim>\<open>Stop\<close> that had to wait for the read closes it when it goes on.
\<close>

theorem Next_on_closed_events_witness:
  "sessA3 \<in> set (runs [CallStart, Capture 0, CallPoll, CallStop] (New (terminalWith [Data [0x61]])))
   \<and> eventsClosed sessA3
   \<and> Next sessA3 = (Some zeroEvent, sessA3\<lparr>keyState := (keyState sessA3)(KeyUnknown \<mapsto> False)\<rparr>)
   \<and> snd (Next sessA3) \<in> set (runs [CallNext] sessA3)
   \<and> eventsClosed (snd (Next sessA3))
   \<and> New (terminalWith []) \<in> set (runs [] (New (terminalWith [])))
   \<and> fst (Next (New (terminalWith []))) = None
   \<and> \<not> eventsClosed (New (terminalWith []))
   \<and> \<not> initialized (backend (New (terminalWith [])))
   \<and> Stop sessA2 = Returned sessA3 \<and> \<not> eventsClosed sessA2
   \<and> started sessA2 \<and> \<not> stopOnce sessA2
   \<and> sessP3 \<in> set (stopResume sessP2) \<and> eventsClosed sessP3"
proof -
  note r = sessA3_reached
  note T1 = Next_on_closed_events
    [of "[CallStart, Capture 0, CallPoll, CallStop]" "terminalWith [Data [0x61]]" "[CallNext]"]
  note T2 = Next_on_closed_events [of "[]" "terminalWith []" "[]"]
  have st: "Stop sessA2 = Returned sessA3" "started sessA2" "\<not> stopOnce sessA2"
    using Stop_sessA2 sessA2_fields(2,3) by simp_all
  have cl: "eventsClosed sessA3" using T1 st by blast
  have n: "snd (Next sessA3) \<in> set (runs [CallNext] sessA3)" by simp
  have f: "New (terminalWith []) \<in> set (runs [] (New (terminalWith [])))" by simp
  have b: "fst (Next (New (terminalWith []))) = None"
    by (simp add: Next_def New_def)
  have n1: "Next sessA3 = (Some zeroEvent, sessA3\<lparr>keyState := (keyState sessA3)(KeyUnknown \<mapsto> False)\<rparr>)"
    using T1 r cl by blast
  have n2: "eventsClosed (snd (Next sessA3))"
    using T1 r cl n by blast
  have c: "\<not> eventsClosed (New (terminalWith []))"
    "\<not> initialized (backend (New (terminalWith [])))"
    using T2 f b by (simp_all add: New_def)
  have o: "\<not> eventsClosed sessA2"
    using Poll_eventsClosed [of "((evA, True), sessA2)" sessA1] Poll_sessA1 sessA1_fields(4)
    by simp
  have p: "sessP3 \<in> set (stopResume sessP2)" by (simp add: stopResume_sessP2)
  then have q: "eventsClosed sessP3" using T1 by blast
  show ?thesis
    using r cl n1 n n2 f b c st o p q by simp
qed
section \<open>ReadEvent on sequences split across reads\<close>

lemma ReadEvent_wholeDev:
  "ReadEvent now wholeDev =
     (Inr \<lparr>Key = KeyUp, Rune = 0, Modifiers = 0, Timestamp = now, Pressed = True, Repeat = False\<rparr>,
      newBackend (terminalWith []))"
  by (simp add: wholeDev_def ReadEvent_def fileRead_def newBackend_def terminalWith_def
        utf8More_def escMore_def escLoop.simps retryIncomplete_def
        Parse_def parseMulti_def root_NewSequenceParser Key_defs)

lemma ReadEvent_splitDev:
  "ReadEvent now splitDev =
     (Inr \<lparr>Key = KeyEscape, Rune = 0, Modifiers = 0, Timestamp = now, Pressed = True, Repeat = False\<rparr>,
      newBackend (terminalWith [Data [0x5B, 0x41], ReadTimeout]))"
  by (simp add: splitDev_def ReadEvent_def fileRead_def newBackend_def terminalWith_def
        utf8More_def escMore_def escLoop.simps retryIncomplete_def
        Parse_def parseSingle_def Key_defs)

lemma ReadEvent_splitDev2:
  "ReadEvent now (newBackend (terminalWith [Data [0x5B, 0x41], ReadTimeout])) =
     (Inr \<lparr>Key = KeyUnknown, Rune = 0, Modifiers = 0, Timestamp = now, Pressed = True, Repeat = False\<rparr>,
      newBackend (terminalWith [ReadTimeout]))"
  by (simp add: ReadEvent_def fileRead_def newBackend_def terminalWith_def
        utf8More_def escMore_def retryIncomplete_def
        Parse_def parseMulti_def root_NewSequenceParser Key_defs)

text \<open>
  C5, as stated, fails. \<^verbatim>\<open>ReadEvent\<close> empties \<^verbatim>\<open>pendingBuf\<close> before every return, so
  nothing is kept for the next call. When ESC arrives alone and the rest of ESC [ A only
  after the timeout, the first call returns Escape and leaves the buffer empty, and the
  next call returns \<^verbatim>\<open>KeyUnknown\<close> for the bytes [ A; in one piece the same bytes
  give the Up arrow.
\<close>

theorem ReadEvent_split_across_calls_counterexample:
  "fst (ReadEvent 0 wholeDev) =
     Inr \<lparr>Key = KeyUp, Rune = 0, Modifiers = 0, Timestamp = 0, Pressed = True, Repeat = False\<rparr>
   \<and> fst (ReadEvent 0 splitDev) =
     Inr \<lparr>Key = KeyEscape, Rune = 0, Modifiers = 0, Timestamp = 0, Pressed = True, Repeat = False\<rparr>
   \<and> pendingBuf (snd (ReadEvent 0 splitDev)) = []
   \<and> fst (ReadEvent 1 (snd (ReadEvent 0 splitDev))) =
     Inr \<lparr>Key = KeyUnknown, Rune = 0, Modifiers = 0, Timestamp = 1, Pressed = True, Repeat = False\<rparr>
   \<and> KeyEscape \<noteq> KeyUp \<and> KeyUnknown \<noteq> KeyUp"
  by (simp add: ReadEvent_wholeDev ReadEvent_splitDev ReadEvent_splitDev2)
     (simp add: newBackend_def Key_defs)


lemma FullRune_short:
  assumes "bs \<noteq> []" and "\<not> FullRune bs"
  shows "length bs < UTFMax"
proof -
  have "unat (first (bs ! 0) AND 7) \<le> 4"
    by (simp add: first_def)
  moreover have "length bs < unat (first (bs ! 0) AND 7)"
    using assms by (simp add: FullRune_def Let_def not_le split: if_splits)
  ultimately show ?thesis by (simp add: UTFMax_def)
qed

lemma fileRead_Data:
  "reads (tty b) = Data bs # rest \<Longrightarrow>
   fileRead b = ((bs, None), b\<lparr>tty := (tty b)\<lparr>reads := rest\<rparr>\<rparr>)"
  by (simp add: fileRead_def)

lemma fileRead_pendingBuf: "pendingBuf (snd (fileRead b)) = pendingBuf b"
  by (simp add: fileRead_def Let_def split: list.splits read_result.splits)

lemma ReadEvent_clears_pendingBuf:
  "pendingBuf b = [] \<Longrightarrow> pendingBuf (snd (ReadEvent now b)) = []"
  using fileRead_pendingBuf [of b]
  by (auto simp add: ReadEvent_def Let_def split: prod.splits option.splits)


text \<open>The clock enters the result of \<^verbatim>\<open>ReadEvent\<close> only as the Timestamp of the Event.\<close>

lemma parseSingle_now:
  "parseSingle (e\<lparr>Timestamp := now\<rparr>) b
     = map_option (map_sum id (Timestamp_update (\<lambda>_. now))) (parseSingle e b)"
  by (simp add: parseSingle_def)

lemma parseMulti_now:
  "parseMulti p (e\<lparr>Timestamp := now\<rparr>) seq
     = map_sum id (Timestamp_update (\<lambda>_. now)) (parseMulti p e seq)"
  by (simp add: parseMulti_def split: prod.splits option.splits)

lemma Parse_now:
  "Parse p now seq = map_sum id (Timestamp_update (\<lambda>_. now)) (Parse p now' seq)"
proof -
  define e where "e = \<lparr>Key = 0, Rune = 0, Modifiers = 0, Timestamp = now',
                      Pressed = True, Repeat = False\<rparr>"
  have en: "\<lparr>Key = 0, Rune = 0, Modifiers = 0, Timestamp = now,
                      Pressed = True, Repeat = False\<rparr> = e\<lparr>Timestamp := now\<rparr>"
    by (simp add: e_def)
  show ?thesis
    unfolding Parse_def Let_def en e_def [symmetric]
    by (simp add: parseSingle_now parseMulti_now split: option.splits)
qed

lemma retryIncomplete_now:
  "retryIncomplete now (map_sum id (Timestamp_update (\<lambda>_. now)) r) b
     = (map_sum id (Timestamp_update (\<lambda>_. now)) (fst (retryIncomplete now' r b)),
        snd (retryIncomplete now' r b))"
proof (cases "r = Inl ErrIncompleteUTF8")
  case True
  then show ?thesis
    using Parse_now [of _ now _ now']
    by (auto simp add: retryIncomplete_def Let_def split: prod.splits option.splits)
next
  case False
  then have "map_sum id (Timestamp_update (\<lambda>_. now)) r \<noteq> Inl ErrIncompleteUTF8"
    by (cases r) auto
  then show ?thesis using False by (simp add: retryIncomplete_def)
qed

lemma ReadEvent_now:
  "ReadEvent now b
     = (map_sum id (Timestamp_update (\<lambda>_. now)) (fst (ReadEvent now' b)), snd (ReadEvent now' b))"
proof -
  obtain bs e b0 where fr: "fileRead b = ((bs, e), b0)"
    by (metis prod.exhaust)
  show ?thesis
  proof (cases e)
    case (Some err)
    then show ?thesis using fr by (simp add: ReadEvent_def)
  next
    case None
    define b3 where "b3 = escMore (utf8More (b0\<lparr>pendingBuf := pendingBuf b0 @ bs\<rparr>))"
    have p: "Parse (parser b3) now (pendingBuf b3)
               = map_sum id (Timestamp_update (\<lambda>_. now)) (Parse (parser b3) now' (pendingBuf b3))"
      by (rule Parse_now)
    show ?thesis
      using fr None retryIncomplete_now [of now "Parse (parser b3) now' (pendingBuf b3)" b3 now']
      by (simp add: ReadEvent_def Let_def b3_def [symmetric] p split: prod.splits)
  qed
qed

text \<open>
  C5, amended. The accumulator joins the reads of one \<^verbatim>\<open>ReadEvent\<close> call. Let the
  call start with an empty \<^verbatim>\<open>pendingBuf\<close> and let the bytes \<open>B1 @ B2\<close> arrive in two
  successive device reads, both non-empty, the second within the call (before a
  timeout), where either \<open>B1\<close> starts with ESC and is shorter than 16 bytes, or \<open>B1\<close> is
  an incomplete UTF-8 prefix that \<open>B2\<close> completes (as at every split point of the
  encoding of a scalar value from 0x80 on). Then the call returns what it
  returns when the device delivers \<open>B1 @ B2\<close> in a single read: the same result and the
  same backend afterwards, and for any other clock reading the same Event up to its
  Timestamp. \<^verbatim>\<open>pendingBuf\<close> is empty after the call.
\<close>

theorem ReadEvent_split_within_call:
  assumes empty: "pendingBuf b = []" and ne1: "B1 \<noteq> []" and ne2: "B2 \<noteq> []"
    and rd: "reads (tty b) = Data B1 # Data B2 # rest"
    and shape0: "(B1 ! 0 = 0x1b \<and> length B1 < 16)
                \<or> (0x80 \<le> B1 ! 0 \<and> \<not> FullRune B1 \<and> FullRune (B1 @ B2))
                \<or> (\<exists>V. scalarValue V \<and> 0x80 \<le> V \<and> B1 @ B2 = EncodeRune V)"
  shows "ReadEvent now b
           = ReadEvent now (b\<lparr>tty := (tty b)\<lparr>reads := Data (B1 @ B2) # rest\<rparr>\<rparr>)
         \<and> fst (ReadEvent now b)
           = map_sum id (Timestamp_update (\<lambda>_. now))
               (fst (ReadEvent now' (b\<lparr>tty := (tty b)\<lparr>reads := Data (B1 @ B2) # rest\<rparr>\<rparr>)))
         \<and> snd (ReadEvent now b)
           = snd (ReadEvent now' (b\<lparr>tty := (tty b)\<lparr>reads := Data (B1 @ B2) # rest\<rparr>\<rparr>))
         \<and> pendingBuf (snd (ReadEvent now b)) = []"
proof -
  have shape: "(B1 ! 0 = 0x1b \<and> length B1 < 16)
                \<or> (0x80 \<le> B1 ! 0 \<and> \<not> FullRune B1 \<and> FullRune (B1 @ B2))"
  proof (cases "\<exists>V. scalarValue V \<and> 0x80 \<le> V \<and> B1 @ B2 = EncodeRune V")
    case True
    then obtain V where V: "scalarValue V" "0x80 \<le> V" "B1 @ B2 = EncodeRune V" by blast
    from utf8_roundtrip [OF V(1,2)] V(3)
    have full: "FullRune (B1 @ B2)" and valid: "validMultiByte (B1 @ B2)"
      by (auto simp add: validMultiByte_def)
    show ?thesis using prefix_not_full [OF ne1 ne2 valid] full by simp
  next
    case False
    then show ?thesis using shape0 by blast
  qed
  define bw where "bw = b\<lparr>tty := (tty b)\<lparr>reads := Data (B1 @ B2) # rest\<rparr>\<rparr>"
  define b1 where "b1 = b\<lparr>tty := (tty b)\<lparr>reads := Data B2 # rest\<rparr>, pendingBuf := B1\<rparr>"
  define b2 where "b2 = b\<lparr>tty := (tty b)\<lparr>reads := rest\<rparr>, pendingBuf := B1 @ B2\<rparr>"
  have h0: "(B1 @ B2) ! 0 = B1 ! 0" using ne1 by (simp add: nth_append)
  have l1: "0 < length B1" "0 < length (B1 @ B2)" using ne1 by simp_all
  have fr1: "fileRead b1 = ((B2, None), b\<lparr>tty := (tty b)\<lparr>reads := rest\<rparr>, pendingBuf := B1\<rparr>)"
    using fileRead_Data [of b1 B2 rest] by (simp add: b1_def)
  have split_run: "ReadEvent now b =
      (let b3 = escMore (utf8More b1);
           (r', b4) = retryIncomplete now (Parse (parser b3) now (pendingBuf b3)) b3
       in (r', b4\<lparr>pendingBuf := []\<rparr>))"
    using fileRead_Data [OF rd] empty by (simp add: ReadEvent_def Let_def b1_def)
  have whole_run: "ReadEvent now bw =
      (let b3 = escMore (utf8More b2);
           (r', b4) = retryIncomplete now (Parse (parser b3) now (pendingBuf b3)) b3
       in (r', b4\<lparr>pendingBuf := []\<rparr>))"
    using fileRead_Data [of bw "B1 @ B2" rest] empty
    by (simp add: ReadEvent_def Let_def bw_def b2_def)
  have same: "escMore (utf8More b1) = escMore (utf8More b2)"
    using shape
  proof
    assume esc: "B1 ! 0 = 0x1b \<and> length B1 < 16"
    have u1: "utf8More b1 = b1" using esc by (simp add: utf8More_def b1_def)
    have u2: "utf8More b2 = b2" using esc h0 by (simp add: utf8More_def b2_def)
    have "escLoop b1 = escLoop b2"
      using esc ne2 fr1 by (simp add: escLoop.simps [of b1]) (simp add: b1_def b2_def)
    then show ?thesis using esc h0 l1 by (simp add: u1 u2 escMore_def) (simp add: b1_def b2_def h0)
  next
    assume utf: "0x80 \<le> B1 ! 0 \<and> \<not> FullRune B1 \<and> FullRune (B1 @ B2)"
    then have nesc: "B1 ! 0 \<noteq> 0x1b" by (auto simp add: word_le_nat_alt)
    have short: "length B1 < UTFMax" using FullRune_short [OF ne1] utf by simp
    have "utf8More b1 = readMore b1"
      using utf nesc short l1 by (simp add: utf8More_def b1_def)
    also have "\<dots> = b2"
      using fr1 ne2 by (simp add: readMore_def) (simp add: b1_def b2_def)
    finally have u1: "utf8More b1 = b2" .
    have u2: "utf8More b2 = b2" using utf by (simp add: utf8More_def b2_def)
    show ?thesis by (simp add: u1 u2)
  qed
  have eq: "ReadEvent now b = ReadEvent now bw"
    by (simp only: split_run whole_run same)
  have "ReadEvent now bw
          = (map_sum id (Timestamp_update (\<lambda>_. now)) (fst (ReadEvent now' bw)),
             snd (ReadEvent now' bw))"
    by (rule ReadEvent_now)
  then have "fst (ReadEvent now b)
               = map_sum id (Timestamp_update (\<lambda>_. now)) (fst (ReadEvent now' bw))"
    and "snd (ReadEvent now b) = snd (ReadEvent now' bw)"
    using eq by simp_all
  then show ?thesis
    using eq ReadEvent_clears_pendingBuf [OF empty, of now] by (simp add: bw_def)
qed

text \<open>The witness: ESC [ A split after ESC, and E6 97 A5 split after E6.\<close>

theorem ReadEvent_split_within_call_witness:
  "ReadEvent 0 (newBackend (terminalWith [Data [0x1b], Data [0x5B, 0x41], ReadTimeout]))
     = ReadEvent 0 wholeDev
   \<and> ReadEvent 0 (newBackend (terminalWith [Data [0xE6], Data [0x97, 0xA5]]))
     = ReadEvent 0 (newBackend (terminalWith [Data [0xE6, 0x97, 0xA5]]))
   \<and> fst (ReadEvent 0 wholeDev) =
     Inr \<lparr>Key = KeyUp, Rune = 0, Modifiers = 0, Timestamp = 0, Pressed = True, Repeat = False\<rparr>"
proof -
  define bE where "bE = newBackend (terminalWith [Data [0x1b], Data [0x5B, 0x41], ReadTimeout])"
  define bU where "bU = newBackend (terminalWith [Data [0xE6], Data [0x97, 0xA5]])"
  have pE: "pendingBuf bE = []"
    and rE: "reads (tty bE) = Data [0x1b] # Data [0x5B, 0x41] # [ReadTimeout]"
    by (simp_all add: bE_def newBackend_def terminalWith_def)
  have sE: "([0x1b :: byte] ! 0 = 0x1b \<and> length [0x1b :: byte] < 16)
            \<or> (0x80 \<le> [0x1b :: byte] ! 0 \<and> \<not> FullRune [0x1b] \<and> FullRune ([0x1b] @ [0x5B, 0x41]))
            \<or> (\<exists>V. scalarValue V \<and> 0x80 \<le> V \<and> [0x1b] @ [0x5B, 0x41] = EncodeRune V)"
    by simp
  have a: "ReadEvent 0 bE = ReadEvent 0 (bE\<lparr>tty := (tty bE)\<lparr>reads := Data ([0x1b] @ [0x5B, 0x41]) # [ReadTimeout]\<rparr>\<rparr>)"
    using ReadEvent_split_within_call [OF pE _ _ rE sE, of 0 0] by simp
  have pU: "pendingBuf bU = []"
    and rU: "reads (tty bU) = Data [0xE6] # Data [0x97, 0xA5] # []"
    by (simp_all add: bU_def newBackend_def terminalWith_def)
  have enc: "EncodeRune 0x65E5 = [0xE6] @ [0x97, 0xA5]"
    by (simp add: EncodeRune_def encode3_def rune1Max_def rune2Max_def
          rune3Max_def MaxRune_def surrogateMin_def surrogateMax_def t3_def tx_def maskx_def)
  have sc: "scalarValue 0x65E5"
    by (simp add: scalarValue_def MaxRune_def surrogateMin_def surrogateMax_def)
  have "\<exists>V. scalarValue V \<and> 0x80 \<le> V \<and> [0xE6] @ [0x97, 0xA5] = EncodeRune V"
    using sc enc by (intro exI [of _ "0x65E5"]) simp
  then have sU: "([0xE6 :: byte] ! 0 = 0x1b \<and> length [0xE6 :: byte] < 16)
            \<or> (0x80 \<le> [0xE6 :: byte] ! 0 \<and> \<not> FullRune [0xE6] \<and> FullRune ([0xE6] @ [0x97, 0xA5]))
            \<or> (\<exists>V. scalarValue V \<and> 0x80 \<le> V \<and> [0xE6] @ [0x97, 0xA5] = EncodeRune V)"
    by (intro disjI2)
  have b: "ReadEvent 0 bU = ReadEvent 0 (bU\<lparr>tty := (tty bU)\<lparr>reads := Data ([0xE6] @ [0x97, 0xA5]) # []\<rparr>\<rparr>)"
    using ReadEvent_split_within_call [OF pU _ _ rU sU, of 0 0] by simp
  have a': "bE\<lparr>tty := (tty bE)\<lparr>reads := Data ([0x1b] @ [0x5B, 0x41]) # [ReadTimeout]\<rparr>\<rparr> = wholeDev"
    by (simp add: bE_def wholeDev_def newBackend_def terminalWith_def)
  have b': "bU\<lparr>tty := (tty bU)\<lparr>reads := Data ([0xE6] @ [0x97, 0xA5]) # []\<rparr>\<rparr>
              = newBackend (terminalWith [Data [0xE6, 0x97, 0xA5]])"
    by (simp add: bU_def newBackend_def terminalWith_def)
  show ?thesis
    using a b by (simp only: a' b' ReadEvent_wholeDev bE_def [symmetric] bU_def [symmetric]) simp
qed


end
